theory Spec2Isabelle
  imports Main
begin

section \<open>Python values, exceptions and effects\<close>

text \<open>
  The factory of MongoFrames is Python: every call may raise, and every object it touches
  is mutable. An exception is a value of \<open>error\<close>. A call that runs against a
  mutable state \<open>'s\<close> returns what it raised or returned together with the state it
  left behind: the state survives an exception, as it does in Python.
\<close>

datatype error = TypeError | ValueError | AssertionError | IndexError | KeyError | Raised string

type_synonym ('s, 'a) action = "'s \<Rightarrow> (error + 'a) \<times> 's"

text \<open>
  Calling the same method again and again: \<open>after_calls m i s\<close> is the state once
  \<open>m\<close> has been called \<open>i\<close> times from \<open>s\<close>, whatever the calls raised or
  returned, and \<open>nth_result m s i\<close> is what the next call, the \<open>i\<close>-th counted from
  zero, answers there.
\<close>

definition after_calls :: "('s, 'a) action \<Rightarrow> nat \<Rightarrow> 's \<Rightarrow> 's" where
  "after_calls m i s = ((\<lambda>t. snd (m t)) ^^ i) s"

definition nth_result :: "('s, 'a) action \<Rightarrow> 's \<Rightarrow> nat \<Rightarrow> error + 'a" where
  "nth_result m s i = fst (m (after_calls m i s))"

text \<open>
  The \<open>quota\<close> argument of \<open>Factory.assemble\<close> is any Python object; the code only
  applies \<open>int(quota)\<close> to it. \<open>PyInt\<close> and \<open>PyBool\<close> are the builtin numbers,
  \<open>PyNone\<close> is \<open>None\<close> (not convertible), and \<open>PyObject r\<close> is any other object,
  given by what its integer conversion (\<open>__int__\<close>) answers: a number or an exception.
\<close>

datatype pyobj = PyInt int | PyBool bool | PyNone | PyObject "error + int"

fun py_int :: "pyobj \<Rightarrow> error + int" where
  "py_int (PyInt n) = Inr n"
| "py_int (PyBool b) = Inr (if b then 1 else 0)"
| "py_int PyNone = Inl TypeError"
| "py_int (PyObject r) = r"

section \<open>The collaborators of the factory\<close>

text \<open>
  The blueprint, its frame class and the signal receivers are objects the factory only
  calls. They are parameters of the model: a blueprint is the record of its methods, each
  an action on the state \<open>'s\<close> of everything outside the factory (the makers' cursors,
  the database, the receivers). Documents \<open>'d\<close> and frames \<open>'f\<close> are whatever the
  blueprint hands out; an object that a collaborator mutates in place keeps its identity
  in \<open>'d\<close> or \<open>'f\<close> and its content in \<open>'s\<close>.
\<close>

record ('s, 'd, 'f) frame_cls =
  ensure_frames :: "'d list \<Rightarrow> ('s, 'f list) action"
  insert_many :: "'f list \<Rightarrow> ('s, 'f list) action"

record ('s, 'p, 'd, 'f) blueprint =
  reset :: "('s, unit) action"
  assemble :: "'p list \<Rightarrow> ('s, 'd) action"
  finish :: "'d \<Rightarrow> 'p list \<Rightarrow> ('s, 'd) action"
  frame_cls :: "('s, 'd, 'f) frame_cls"

text \<open>
  To speak about which calls the factory makes and in which order, the state the factory
  runs against carries the list of the calls made so far. The factory appends to it when
  it calls a collaborator, before the collaborator runs, so a call that raises is
  recorded too.
\<close>

datatype ('d, 'f) event =
    BlueprintReset
  | BlueprintAssemble
  | BlueprintFinish 'd
  | EnsureFrames "'d list"
  | SignalSend string "'f list"
  | InsertMany "'f list"

record ('s, 'd, 'f) world =
  trace :: "('d, 'f) event list"
  ext :: 's

definition call :: "('d, 'f) event \<Rightarrow> ('s, 'a) action \<Rightarrow> (('s, 'd, 'f) world, 'a) action" where
  "call ev m w = (case m (ext w) of (r, s') \<Rightarrow> (r, \<lparr>trace = trace w @ [ev], ext = s'\<rparr>))"

section \<open>Factory\<close>

record 'p Factory =
  presets :: "'p list"

text \<open>\<open>self._presets = presets or []\<close>: no argument and an empty list both give \<open>[]\<close>.\<close>

definition Factory_init :: "'p list option \<Rightarrow> 'p Factory" where
  "Factory_init ps = \<lparr>presets = (case ps of None \<Rightarrow> [] | Some l \<Rightarrow> if l = [] then [] else l)\<rparr>"

text \<open>
  \<open>for i in range(0, int(quota)): documents.append(blueprint.assemble(self.presets))\<close>.
  The loop runs \<open>n\<close> more times; \<open>documents\<close> is the list built so far.
\<close>

fun assemble_loop ::
  "('s, 'p, 'd, 'f) blueprint \<Rightarrow> 'p list \<Rightarrow> nat \<Rightarrow> 'd list \<Rightarrow> (('s, 'd, 'f) world, 'd list) action"
where
  "assemble_loop bp ps 0 documents w = (Inr documents, w)"
| "assemble_loop bp ps (Suc n) documents w =
     (case call BlueprintAssemble (assemble bp ps) w of
        (Inl e, w') \<Rightarrow> (Inl e, w')
      | (Inr d, w') \<Rightarrow> assemble_loop bp ps n (documents @ [d]) w')"

text \<open>
  \<open>Factory.assemble\<close>: reset the blueprint, then convert the quota, then loop.
  \<open>range(0, n)\<close> is empty for \<open>n \<le> 0\<close>, which is \<open>nat n = 0\<close>.
\<close>

definition Factory_assemble ::
  "'p Factory \<Rightarrow> ('s, 'p, 'd, 'f) blueprint \<Rightarrow> pyobj \<Rightarrow> (('s, 'd, 'f) world, 'd list) action"
where
  "Factory_assemble self bp quota w =
     (case call BlueprintReset (reset bp) w of
        (Inl e, w1) \<Rightarrow> (Inl e, w1)
      | (Inr _, w1) \<Rightarrow>
          (case py_int quota of
             Inl e \<Rightarrow> (Inl e, w1)
           | Inr n \<Rightarrow> assemble_loop bp (presets self) (nat n) [] w1))"

text \<open>\<open>for document in documents: finished.append(blueprint.finish(document, self.presets))\<close>\<close>

fun finish_loop ::
  "('s, 'p, 'd, 'f) blueprint \<Rightarrow> 'p list \<Rightarrow> 'd list \<Rightarrow> 'd list \<Rightarrow> (('s, 'd, 'f) world, 'd list) action"
where
  "finish_loop bp ps [] finished w = (Inr finished, w)"
| "finish_loop bp ps (document # documents) finished w =
     (case call (BlueprintFinish document) (finish bp document ps) w of
        (Inl e, w') \<Rightarrow> (Inl e, w')
      | (Inr d, w') \<Rightarrow> finish_loop bp ps documents (finished @ [d]) w')"

definition Factory_finish ::
  "'p Factory \<Rightarrow> ('s, 'p, 'd, 'f) blueprint \<Rightarrow> 'd list \<Rightarrow> (('s, 'd, 'f) world, 'd list) action"
where
  "Factory_finish self bp documents w =
     (case call BlueprintReset (reset bp) w of
        (Inl e, w1) \<Rightarrow> (Inl e, w1)
      | (Inr _, w1) \<Rightarrow> finish_loop bp (presets self) documents [] w1)"

text \<open>
  What a Python call hands back to its caller. \<open>Factory.populate\<close> has no
  \<open>return\<close> statement; the three lists it computes are the candidates it could have
  returned.
\<close>

datatype ('d, 'f) returned = ReturnNone | ReturnDocuments "'d list" | ReturnFrames "'f list"

text \<open>
  \<open>signal(name).send(blueprint.frame_cls, frames=frames)\<close> runs the receivers
  connected to the named signal; \<open>send name sender frames\<close> is that call. What the
  receivers answer is dropped by the factory.
\<close>

type_synonym ('s, 'd, 'f) signal =
  "string \<Rightarrow> ('s, 'd, 'f) frame_cls \<Rightarrow> 'f list \<Rightarrow> ('s, unit) action"

definition Factory_populate ::
  "('s, 'd, 'f) signal \<Rightarrow> 'p Factory \<Rightarrow> ('s, 'p, 'd, 'f) blueprint \<Rightarrow> 'd list \<Rightarrow>
     (('s, 'd, 'f) world, ('d, 'f) returned) action"
where
  "Factory_populate send self bp documents w =
     (case Factory_finish self bp documents w of
        (Inl e, w1) \<Rightarrow> (Inl e, w1)
      | (Inr documents', w1) \<Rightarrow>
     (case call (EnsureFrames documents') (ensure_frames (frame_cls bp) documents') w1 of
        (Inl e, w2) \<Rightarrow> (Inl e, w2)
      | (Inr frames, w2) \<Rightarrow>
     (case call (SignalSend ''factory_insert'' frames)
                (send ''factory_insert'' (frame_cls bp) frames) w2 of
        (Inl e, w3) \<Rightarrow> (Inl e, w3)
      | (Inr _, w3) \<Rightarrow>
     (case call (InsertMany frames) (insert_many (frame_cls bp) frames) w3 of
        (Inl e, w4) \<Rightarrow> (Inl e, w4)
      | (Inr frames', w4) \<Rightarrow>
     (case call (SignalSend ''factory_inserted'' frames')
                (send ''factory_inserted'' (frame_cls bp) frames') w4 of
        (Inl e, w5) \<Rightarrow> (Inl e, w5)
      | (Inr _, w5) \<Rightarrow> (Inr ReturnNone, w5))))))"


subsection \<open>A concrete blueprint\<close>

text \<open>
  A small world to run the factory in. The blueprint numbers its documents with a counter
  that \<open>reset\<close> puts back to zero; finishing adds 100; the frame class stores what it is
  given; the receivers of the two signals note the name of each signal they get. The
  second frame class is one whose \<open>insert_many\<close> raises.
\<close>

record shop =
  counter :: nat
  received :: "string list"
  stored :: "nat list"

definition shop_frame_cls :: "(shop, nat, nat) frame_cls" where
  "shop_frame_cls =
     \<lparr>ensure_frames = (\<lambda>ds s. (Inr ds, s)),
      insert_many = (\<lambda>fs s. (Inr fs, s\<lparr>stored := stored s @ fs\<rparr>))\<rparr>"

definition broken_frame_cls :: "(shop, nat, nat) frame_cls" where
  "broken_frame_cls =
     \<lparr>ensure_frames = (\<lambda>ds s. (Inr ds, s)),
      insert_many = (\<lambda>fs s. (Inl (Raised ''insert_many''), s))\<rparr>"

definition shop_blueprint :: "(shop, nat, nat) frame_cls \<Rightarrow> (shop, unit, nat, nat) blueprint" where
  "shop_blueprint fc =
     \<lparr>reset = (\<lambda>s. (Inr (), s\<lparr>counter := 0\<rparr>)),
      assemble = (\<lambda>ps s. (Inr (counter s), s\<lparr>counter := Suc (counter s)\<rparr>)),
      finish = (\<lambda>d ps s. (Inr (d + 100), s)),
      frame_cls = fc\<rparr>"

definition shop_send :: "(shop, nat, nat) signal" where
  "shop_send name sender frames s = (Inr (), s\<lparr>received := received s @ [name]\<rparr>)"

definition shop0 :: "(shop, nat, nat) world" where
  "shop0 = \<lparr>trace = [], ext = \<lparr>counter = 7, received = [], stored = []\<rparr>\<rparr>"


section \<open>Makers\<close>

text \<open>
  The makers, the quotas and the blueprints of \<open>mongoframes.factory\<close> are not among
  the sources at hand: only \<open>Factory\<close> and the makers' tests are. What follows is
  modelled from the specification, and from \<open>test_makers.py\<close> where the specification
  leaves a choice open. The tests call the methods \<open>_assemble\<close>, \<open>_finish\<close> and
  \<open>reset\<close> of a maker; these are the methods modelled.
\<close>

subsection \<open>Values\<close>

text \<open>
  Modelled from the spec: the values makers produce and documents hold are JSON-safe
  values. \<open>VNone\<close> is Python's \<open>None\<close>; a dictionary keeps its keys in insertion
  order.
\<close>

datatype val =
    VNone
  | VBool bool
  | VInt int
  | VStr string
  | VList "val list"
  | VDict "(string \<times> val) list"

text \<open>\<open>xs[i]\<close> on a Python list. The indices \<open>-len(xs), ..., -1\<close> stand for
  \<open>0, ..., len(xs) - 1\<close>; any index outside both ranges raises \<open>IndexError\<close>.\<close>

definition py_getitem :: "val list \<Rightarrow> int \<Rightarrow> error + val" where
  "py_getitem xs i =
     (if 0 \<le> i \<and> i < int (length xs) then Inr (xs ! nat i)
      else if i < 0 \<and> - int (length xs) \<le> i then Inr (xs ! nat (int (length xs) + i))
      else Inl IndexError)"

text \<open>\<open>d[k]\<close> on a Python dictionary: a missing key raises \<open>KeyError\<close>.\<close>

fun py_lookup :: "(string \<times> val) list \<Rightarrow> string \<Rightarrow> error + val" where
  "py_lookup [] k = Inl KeyError"
| "py_lookup ((k', v) # d) k = (if k' = k then Inr v else py_lookup d k)"

subsection \<open>The base class\<close>

text \<open>
  Modelled from the spec: a maker has a mutable current document (\<open>None\<close> outside a
  \<open>target\<close> block) and two flags saying whether it acts at assembly and at finishing;
  by default it acts at assembly only. The concrete makers extend this record.
\<close>

record Maker =
  document :: val
  assembler :: bool
  finisher :: bool

text \<open>Modelled from the spec: a fresh maker has no current document and acts at
  assembly only.\<close>

definition Maker_init :: Maker where
  "Maker_init = \<lparr>document = VNone, assembler = True, finisher = False\<rparr>"

text \<open>
  Modelled from the spec: \<open>with maker.target(document): body\<close> sets
  \<open>self.document\<close> for the block and restores it to \<open>None\<close> on exit, even on error.
  The block is an action on the maker; what it raised or returned is the outcome of the
  whole statement.
\<close>

definition target ::
  "val \<Rightarrow> ('z Maker_scheme, 'a) action \<Rightarrow> ('z Maker_scheme, 'a) action" where
  "target doc body self =
     (case body (self\<lparr>document := doc\<rparr>) of (r, self') \<Rightarrow> (r, self'\<lparr>document := VNone\<rparr>))"

text \<open>
  Modelled from the spec: the contract of a maker as another maker sees it, the three
  methods \<open>reset\<close>, \<open>_assemble\<close> and \<open>_finish(value)\<close> over the state \<open>'s\<close> of the
  object. A wrapped maker is an object: its class and its state, owned by the wrapper.
\<close>

record 's maker_cls =
  m_reset :: "'s \<Rightarrow> 's"
  m_assemble :: "('s, val) action"
  m_finish :: "val \<Rightarrow> ('s, val) action"

text \<open>Modelled from the spec: a maker held by another maker, its class and its own
  state.\<close>

record 's maker_obj =
  cls :: "'s maker_cls"
  obj :: 's


text \<open>Modelled from the spec: \<open>maker._assemble()\<close> on a held maker; the
  holder keeps the state the call left.\<close>

definition obj_assemble :: "('s maker_obj, val) action" where
  "obj_assemble m = (case m_assemble (cls m) (obj m) of (r, s') \<Rightarrow> (r, m\<lparr>obj := s'\<rparr>))"

text \<open>Modelled from the spec: \<open>maker._finish(value)\<close> on a held
  maker.\<close>

definition obj_finish :: "val \<Rightarrow> ('s maker_obj, val) action" where
  "obj_finish v m = (case m_finish (cls m) v (obj m) of (r, s') \<Rightarrow> (r, m\<lparr>obj := s'\<rparr>))"

subsection \<open>Static\<close>

text \<open>
  Modelled from the spec: \<open>Static(value, assembler=True)\<close>. Assembly returns the
  configured value, or \<open>None\<close> when the maker is configured as a finisher; finishing
  returns the configured value whatever it is given.
\<close>

record Static = Maker +
  static_value :: val

text \<open>Modelled from the spec: \<open>Static(value, assembler)\<close>; a static maker
  that is not an assembler is a finisher.\<close>

definition Static_init :: "val \<Rightarrow> bool \<Rightarrow> Static" where
  "Static_init v a = \<lparr>document = VNone, assembler = a, finisher = \<not> a, static_value = v\<rparr>"

text \<open>Modelled from the spec: assembly returns the configured value,
  \<open>None\<close> for a finisher.\<close>

definition Static_assemble :: "(Static, val) action" where
  "Static_assemble self = (Inr (if assembler self then static_value self else VNone), self)"

text \<open>Modelled from the spec: finishing returns the configured value and ignores its
  input.\<close>

definition Static_finish :: "val \<Rightarrow> (Static, val) action" where
  "Static_finish v self = (Inr (static_value self), self)"

text \<open>Modelled from the spec: the class \<open>Static\<close>; its
  \<open>reset\<close> is the no-op of the base class.\<close>

definition Static_cls :: "Static maker_cls" where
  "Static_cls = \<lparr>m_reset = (\<lambda>self. self), m_assemble = Static_assemble, m_finish = Static_finish\<rparr>"

subsection \<open>Lambda\<close>

text \<open>
  Modelled from the spec: a Python callable, by what it answers when called with the
  document alone and with the document and a value. A function of one argument raises
  \<open>TypeError\<close> when called with two, and the other way round.
\<close>

record pyfunc =
  call1 :: "val \<Rightarrow> error + val"
  call2 :: "val \<Rightarrow> val \<Rightarrow> error + val"

text \<open>
  Modelled from the spec: \<open>Lambda(func, assembler=True, finisher=False)\<close>. Assembly
  calls the function with the current document; finishing calls it with the current
  document and the assembled value. A stage the maker does not act at: assembly returns
  \<open>None\<close>, finishing hands the assembled value on (\<open>test_lambda\<close>: the default
  \<open>Lambda(lambda doc: 'foo')\<close> finishes \<open>'foo'\<close> to \<open>'foo'\<close>).
\<close>

record Lambda = Maker +
  func :: pyfunc

text \<open>Modelled from the spec: \<open>Lambda(func, assembler, finisher)\<close>.\<close>

definition Lambda_init :: "pyfunc \<Rightarrow> bool \<Rightarrow> bool \<Rightarrow> Lambda" where
  "Lambda_init f a fin = \<lparr>document = VNone, assembler = a, finisher = fin, func = f\<rparr>"

text \<open>Modelled from the spec: assembly calls the function with the current
  document.\<close>

definition Lambda_assemble :: "(Lambda, val) action" where
  "Lambda_assemble self =
     (if assembler self then (call1 (func self) (document self), self) else (Inr VNone, self))"

text \<open>Modelled from the spec: finishing calls the function with the current document
  and the assembled value.\<close>

definition Lambda_finish :: "val \<Rightarrow> (Lambda, val) action" where
  "Lambda_finish v self =
     (if finisher self then (call2 (func self) (document self) v, self) else (Inr v, self))"

text \<open>Modelled from the spec: the class \<open>Lambda\<close>; its
  \<open>reset\<close> is the no-op of the base class.\<close>

definition Lambda_cls :: "Lambda maker_cls" where
  "Lambda_cls = \<lparr>m_reset = (\<lambda>self. self), m_assemble = Lambda_assemble, m_finish = Lambda_finish\<rparr>"

subsection \<open>Cycle\<close>

text \<open>
  Modelled from the spec: \<open>Cycle(items)\<close> over a fixed pool. Assembly returns the next
  index into the pool and moves the cursor on, wrapping around at the end of the pool;
  the cursor survives across calls and \<open>reset\<close> puts it back to 0; finishing maps an
  index back to the pool's value at that index. (In \<open>test_list_of\<close> an assembled
  element prints as \<open>[index, None]\<close>; the model keeps the index, which is what the
  specification speaks about.)
\<close>

record Cycle = Maker +
  items :: "val list"
  item_index :: nat

text \<open>Modelled from the spec: \<open>Cycle(items)\<close>, the cursor at 0.\<close>

definition Cycle_init :: "val list \<Rightarrow> Cycle" where
  "Cycle_init xs =
     \<lparr>document = VNone, assembler = True, finisher = False, items = xs, item_index = 0\<rparr>"

text \<open>Modelled from the spec: \<open>reset\<close> restores the cursor to 0.\<close>

definition Cycle_reset :: "Cycle \<Rightarrow> Cycle" where
  "Cycle_reset self = self\<lparr>item_index := 0\<rparr>"

text \<open>Modelled from the spec: assembly returns the index under the cursor and moves
  the cursor on, back to 0 past the end of the pool.\<close>

definition Cycle_assemble :: "(Cycle, val) action" where
  "Cycle_assemble self =
     (let i = item_index self
      in (Inr (VInt (int i)),
          self\<lparr>item_index := (if i + 1 \<ge> length (items self) then 0 else i + 1)\<rparr>))"

text \<open>Modelled from the spec: finishing maps the index back to
  \<open>items[index]\<close>.\<close>

definition Cycle_finish :: "val \<Rightarrow> (Cycle, val) action" where
  "Cycle_finish v self =
     (case v of VInt i \<Rightarrow> (py_getitem (items self) i, self) | _ \<Rightarrow> (Inl TypeError, self))"


subsection \<open>Sequence\<close>












subsection \<open>Quota\<close>

text \<open>
  Modelled from the spec: \<open>Quota(count)\<close> has an integer target count and a cursor of
  what has been consumed. Iterating it yields exactly \<open>count\<close> times (no time for a
  count below 1) and moves the cursor on at each yield; \<open>reset\<close> zeroes the cursor and
  leaves the target alone.
\<close>

record Quota =
  quantity :: int
  cursor :: nat


text \<open>Modelled from the spec: \<open>reset\<close> zeroes the cursor without changing the target.\<close>

definition Quota_reset :: "Quota \<Rightarrow> Quota" where
  "Quota_reset q = q\<lparr>cursor := 0\<rparr>"



subsection \<open>ListOf\<close>

text \<open>
  Modelled from the spec: \<open>ListOf(maker, quota, reset_maker=False)\<close> invokes the
  wrapped maker once for each yield of the quota and collects what it returns, in order.
  With \<open>reset_maker\<close> the wrapped maker is reset before each outer call. Finishing maps
  the wrapped maker's finish over the collected elements. An exception of the wrapped
  maker ends the call.
\<close>

record 's ListOf = Maker +
  maker :: "'s maker_obj"
  list_quota :: Quota
  reset_maker :: bool




text \<open>Modelled from the spec: finishing the collected elements one after the other.\<close>

fun ListOf_finish_loop :: "val list \<Rightarrow> val list \<Rightarrow> ('s ListOf, val list) action" where
  "ListOf_finish_loop [] acc self = (Inr acc, self)"
| "ListOf_finish_loop (v # vs) acc self =
     (case obj_finish v (maker self) of
        (Inl e, m') \<Rightarrow> (Inl e, self\<lparr>maker := m'\<rparr>)
      | (Inr w, m') \<Rightarrow> ListOf_finish_loop vs (acc @ [w]) (self\<lparr>maker := m'\<rparr>))"

text \<open>Modelled from the spec: finishing maps the wrapped maker's finish over the collected
  list.\<close>

definition ListOf_finish :: "val \<Rightarrow> ('s ListOf, val) action" where
  "ListOf_finish v self =
     (case v of
        VList vs \<Rightarrow>
          (case ListOf_finish_loop vs [] self of
             (Inl e, self') \<Rightarrow> (Inl e, self')
           | (Inr ws, self') \<Rightarrow> (Inr (VList ws), self'))
      | _ \<Rightarrow> (Inl TypeError, self))"

subsection \<open>DictOf\<close>

text \<open>
  Modelled from the spec: \<open>DictOf(table)\<close>. For each key of the table the value is
  either a literal JSON-safe value or a wrapped maker. Assembly gives \<open>None\<close> for a
  literal and the wrapped maker's assembled value for a maker; finishing gives the
  literal itself for a literal and, for a maker, what it finishes the assembled value
  under the same key to. The keys are visited in the order of the table.
\<close>

text \<open>Modelled from the spec: what a key of the table is bound to.\<close>

datatype 's entry = Literal val | Wrapped "'s maker_obj"

text \<open>Modelled from the spec: the maker holds its table.\<close>

record 's DictOf = Maker +
  table :: "(string \<times> 's entry) list"

text \<open>Modelled from the spec: \<open>DictOf(table)\<close>.\<close>

definition DictOf_init :: "(string \<times> 's entry) list \<Rightarrow> 's DictOf" where
  "DictOf_init t = \<lparr>document = VNone, assembler = True, finisher = False, table = t\<rparr>"

text \<open>Modelled from the spec: the loop of an assembly over the keys of the table. Both
  loops return the table with the wrapped makers as the calls left them.\<close>

fun assemble_table ::
  "(string \<times> 's entry) list \<Rightarrow> (error + (string \<times> val) list) \<times> (string \<times> 's entry) list"
where
  "assemble_table [] = (Inr [], [])"
| "assemble_table ((k, Literal v) # rest) =
     (case assemble_table rest of
        (Inl e, rest') \<Rightarrow> (Inl e, (k, Literal v) # rest')
      | (Inr out, rest') \<Rightarrow> (Inr ((k, VNone) # out), (k, Literal v) # rest'))"
| "assemble_table ((k, Wrapped m) # rest) =
     (case obj_assemble m of
        (Inl e, m') \<Rightarrow> (Inl e, (k, Wrapped m') # rest)
      | (Inr a, m') \<Rightarrow>
          (case assemble_table rest of
             (Inl e, rest') \<Rightarrow> (Inl e, (k, Wrapped m') # rest')
           | (Inr out, rest') \<Rightarrow> (Inr ((k, a) # out), (k, Wrapped m') # rest')))"

text \<open>Modelled from the spec: assembly returns the dictionary of what the keys assemble
  to.\<close>

definition DictOf_assemble :: "('s DictOf, val) action" where
  "DictOf_assemble self =
     (case assemble_table (table self) of
        (Inl e, t') \<Rightarrow> (Inl e, self\<lparr>table := t'\<rparr>)
      | (Inr out, t') \<Rightarrow> (Inr (VDict out), self\<lparr>table := t'\<rparr>))"

text \<open>Modelled from the spec: finishing mirrors the split of assembly; the assembled value
  of a maker is looked up under its key.\<close>

fun finish_table ::
  "(string \<times> val) list \<Rightarrow> (string \<times> 's entry) list \<Rightarrow>
     (error + (string \<times> val) list) \<times> (string \<times> 's entry) list"
where
  "finish_table d [] = (Inr [], [])"
| "finish_table d ((k, Literal v) # rest) =
     (case finish_table d rest of
        (Inl e, rest') \<Rightarrow> (Inl e, (k, Literal v) # rest')
      | (Inr out, rest') \<Rightarrow> (Inr ((k, v) # out), (k, Literal v) # rest'))"
| "finish_table d ((k, Wrapped m) # rest) =
     (case py_lookup d k of
        Inl e \<Rightarrow> (Inl e, (k, Wrapped m) # rest)
      | Inr a \<Rightarrow>
          (case obj_finish a m of
             (Inl e, m') \<Rightarrow> (Inl e, (k, Wrapped m') # rest)
           | (Inr w, m') \<Rightarrow>
               (case finish_table d rest of
                  (Inl e, rest') \<Rightarrow> (Inl e, (k, Wrapped m') # rest')
                | (Inr out, rest') \<Rightarrow> (Inr ((k, w) # out), (k, Wrapped m') # rest'))))"

text \<open>Modelled from the spec: finishing takes the assembled dictionary and returns the
  finished one.\<close>

definition DictOf_finish :: "val \<Rightarrow> ('s DictOf, val) action" where
  "DictOf_finish v self =
     (case v of
        VDict d \<Rightarrow>
          (case finish_table d (table self) of
             (Inl e, t') \<Rightarrow> (Inl e, self\<lparr>table := t'\<rparr>)
           | (Inr out, t') \<Rightarrow> (Inr (VDict out), self\<lparr>table := t'\<rparr>))
      | _ \<Rightarrow> (Inl TypeError, self))"

subsection \<open>Unique\<close>

text \<open>
  Modelled from the spec: \<open>Unique(maker, exclude=None, assembler=True)\<close> delegates to a
  wrapped maker but rejects, and retries, any output already produced since construction
  or reset. It keeps the set of the values already emitted, seeded with the exclusion
  set; \<open>reset\<close> clears that set entirely. The number of attempts of one call is bounded
  by a fixed ceiling, a parameter here since the specification does not give its value;
  going past it is an assertion failure raised to the caller. The policy applies at
  assembly, or at finishing when \<open>assembler=False\<close> (as in \<open>test_unique\<close>); the other
  stage goes straight to the wrapped maker.
\<close>

record 's Unique = Maker +
  wrapped :: "'s maker_obj"
  exclude :: "val set"
  used_values :: "val set"
  max_attempts :: nat

text \<open>Modelled from the spec: construction seeds the set of seen values with the exclusion
  set.\<close>

definition Unique_init :: "'s maker_obj \<Rightarrow> val set \<Rightarrow> bool \<Rightarrow> nat \<Rightarrow> 's Unique" where
  "Unique_init m ex a k =
     \<lparr>document = VNone, assembler = a, finisher = \<not> a,
      wrapped = m, exclude = ex, used_values = ex, max_attempts = k\<rparr>"

text \<open>Modelled from the spec: \<open>reset()\<close> clears the set of seen values entirely.\<close>

definition Unique_reset :: "'s Unique \<Rightarrow> 's Unique" where
  "Unique_reset self = self\<lparr>used_values := {}\<rparr>"

text \<open>Modelled from the spec: the retry loop. \<open>n\<close> attempts are left; \<open>gen\<close> is the
  call made on the wrapped maker. An exception of the wrapped maker ends the loop.\<close>

fun get_unique :: "nat \<Rightarrow> ('s, val) action \<Rightarrow> val set \<Rightarrow> ('s, val) action" where
  "get_unique 0 gen used s = (Inl AssertionError, s)"
| "get_unique (Suc n) gen used s =
     (case gen s of
        (Inl e, s') \<Rightarrow> (Inl e, s')
      | (Inr v, s') \<Rightarrow> if v \<notin> used then (Inr v, s') else get_unique n gen used s')"

text \<open>Modelled from the spec: one call under the policy; a value that is returned joins the
  set of seen values.\<close>

definition Unique_get_unique :: "('s maker_obj, val) action \<Rightarrow> ('s Unique, val) action" where
  "Unique_get_unique gen self =
     (case get_unique (max_attempts self) gen (used_values self) (wrapped self) of
        (Inl e, m') \<Rightarrow> (Inl e, self\<lparr>wrapped := m'\<rparr>)
      | (Inr v, m') \<Rightarrow> (Inr v, self\<lparr>wrapped := m', used_values := insert v (used_values self)\<rparr>))"

text \<open>Modelled from the spec: assembly, under the policy when the maker acts at
  assembly.\<close>

definition Unique_assemble :: "('s Unique, val) action" where
  "Unique_assemble self =
     (if assembler self then Unique_get_unique obj_assemble self
      else (case obj_assemble (wrapped self) of (r, m') \<Rightarrow> (r, self\<lparr>wrapped := m'\<rparr>)))"

text \<open>Modelled from the spec: finishing, under the policy when the maker acts at
  finishing.\<close>

definition Unique_finish :: "val \<Rightarrow> ('s Unique, val) action" where
  "Unique_finish v self =
     (if assembler self
      then (case obj_finish v (wrapped self) of (r, m') \<Rightarrow> (r, self\<lparr>wrapped := m'\<rparr>))
      else Unique_get_unique (obj_finish v) self)"


subsection \<open>Using a maker\<close>

text \<open>\<open>maker._finish(maker._assemble())\<close>, as the tests produce a finished value: an
  exception of the assembly is the outcome, and nothing is finished then.\<close>

definition assemble_finish ::
  "('s, val) action \<Rightarrow> (val \<Rightarrow> ('s, val) action) \<Rightarrow> ('s, val) action" where
  "assemble_finish asm fin self =
     (case asm self of (Inl e, self') \<Rightarrow> (Inl e, self') | (Inr a, self') \<Rightarrow> fin a self')"

text \<open>What a caller can do with a \<open>Unique\<close> maker, one step at a time: assemble,
  finish a value, or call \<open>reset()\<close> (which returns \<open>None\<close>). A run of steps gives
  the outcome of every step, in order, and the maker the run leaves behind.\<close>

datatype step = Assemble | Finish val | Reset

fun Unique_step :: "step \<Rightarrow> ('s Unique, val) action" where
  "Unique_step Assemble self = Unique_assemble self"
| "Unique_step (Finish v) self = Unique_finish v self"
| "Unique_step Reset self = (Inr VNone, Unique_reset self)"

fun Unique_run :: "step list \<Rightarrow> 's Unique \<Rightarrow> (error + val) list \<times> 's Unique" where
  "Unique_run [] self = ([], self)"
| "Unique_run (st # sts) self =
     (case Unique_step st self of
        (r, self') \<Rightarrow> (case Unique_run sts self' of (rs, self'') \<Rightarrow> (r # rs, self'')))"

subsection \<open>Loops, by the outcomes of their calls\<close>

text \<open>
  The loops of \<open>ListOf\<close> and \<open>DictOf\<close> make one call after the other and stop at
  the first exception. Given the outcomes the calls would have one after the other,
  \<open>collect\<close> is what such a loop ends with, the first exception or the list of all
  values, and \<open>calls_made\<close> is the number of calls it makes.
\<close>

fun collect :: "(error + 'a) list \<Rightarrow> error + 'a list" where
  "collect [] = Inr []"
| "collect (Inl e # rs) = Inl e"
| "collect (Inr v # rs) = (case collect rs of Inl e \<Rightarrow> Inl e | Inr vs \<Rightarrow> Inr (v # vs))"

fun calls_made :: "(error + 'a) list \<Rightarrow> nat" where
  "calls_made [] = 0"
| "calls_made (Inl e # rs) = 1"
| "calls_made (Inr v # rs) = Suc (calls_made rs)"



text \<open>
  What one key of a \<open>DictOf\<close> table comes to, taken alone. At assembly: \<open>None\<close>
  under a literal, and under a wrapped maker what its own \<open>_assemble()\<close> answers. At
  finishing the assembled dictionary \<open>d\<close>: the literal itself, and for a wrapped
  maker what its \<open>_finish\<close> answers to the value \<open>d\<close> holds under the key. And
  the round trip: a wrapped maker assembles, and then finishes the value it assembled.
\<close>

fun entry_assembled :: "string \<times> 's entry \<Rightarrow> error + (string \<times> val)" where
  "entry_assembled (k, Literal v) = Inr (k, VNone)"
| "entry_assembled (k, Wrapped m) =
     (case fst (obj_assemble m) of Inl e \<Rightarrow> Inl e | Inr a \<Rightarrow> Inr (k, a))"

fun entry_after_assembly :: "string \<times> 's entry \<Rightarrow> string \<times> 's entry" where
  "entry_after_assembly (k, Literal v) = (k, Literal v)"
| "entry_after_assembly (k, Wrapped m) = (k, Wrapped (snd (obj_assemble m)))"

fun entry_finished :: "(string \<times> val) list \<Rightarrow> string \<times> 's entry \<Rightarrow> error + (string \<times> val)" where
  "entry_finished d (k, Literal v) = Inr (k, v)"
| "entry_finished d (k, Wrapped m) =
     (case py_lookup d k of
        Inl e \<Rightarrow> Inl e
      | Inr a \<Rightarrow> (case fst (obj_finish a m) of Inl e \<Rightarrow> Inl e | Inr w \<Rightarrow> Inr (k, w)))"

fun entry_round_trip :: "string \<times> 's entry \<Rightarrow> error + (string \<times> val)" where
  "entry_round_trip (k, Literal v) = Inr (k, v)"
| "entry_round_trip (k, Wrapped m) =
     (case obj_assemble m of
        (Inl e, m') \<Rightarrow> Inl e
      | (Inr a, m') \<Rightarrow> (case fst (obj_finish a m') of Inl e \<Rightarrow> Inl e | Inr w \<Rightarrow> Inr (k, w)))"

subsection \<open>The makers of the tests\<close>

text \<open>The pool \<open>list('abcde')\<close> of \<open>test_list_of\<close>.\<close>

definition abcde :: "val list" where
  "abcde = [VStr ''a'', VStr ''b'', VStr ''c'', VStr ''d'', VStr ''e'']"


definition Static_obj :: "val \<Rightarrow> Static maker_obj" where
  "Static_obj v = \<lparr>cls = Static_cls, obj = Static_init v True\<rparr>"


text \<open>\<open>lambda doc: 'bar'\<close>: one argument, the answer \<open>'bar'\<close>.\<close>

definition lambda_bar :: pyfunc where
  "lambda_bar = \<lparr>call1 = (\<lambda>doc. Inr (VStr ''bar'')), call2 = (\<lambda>doc v. Inl TypeError)\<rparr>"

text \<open>\<open>DictOf({'json_type': 'foo', 'maker': Lambda(lambda doc: 'bar')})\<close> of
  \<open>test_dict_of\<close>.\<close>

definition dict_of_example :: "Lambda DictOf" where
  "dict_of_example =
     DictOf_init
       [(''json_type'', Literal (VStr ''foo'')),
        (''maker'', Wrapped \<lparr>cls = Lambda_cls, obj = Lambda_init lambda_bar True False\<rparr>)]"

text \<open>The function of \<open>test_lambda\<close> that serves both stages:
  \<open>def func(doc, value=None): if value: return value + 'bar'; return 'foo'\<close>.
  Adding \<open>'bar'\<close> to a true value that is no string raises \<open>TypeError\<close>.\<close>

fun truthy :: "val \<Rightarrow> bool" where
  "truthy VNone = False"
| "truthy (VBool b) = b"
| "truthy (VInt i) = (i \<noteq> 0)"
| "truthy (VStr s) = (s \<noteq> [])"
| "truthy (VList xs) = (xs \<noteq> [])"
| "truthy (VDict d) = (d \<noteq> [])"

definition func_foobar :: pyfunc where
  "func_foobar =
     \<lparr>call1 = (\<lambda>doc. Inr (VStr ''foo'')),
      call2 = (\<lambda>doc v. if truthy v
                         then (case v of VStr s \<Rightarrow> Inr (VStr (s @ ''bar'')) | _ \<Rightarrow> Inl TypeError)
                         else Inr (VStr ''foo''))\<rparr>"

text \<open>A table with a literal and \<open>Lambda(func, finisher=True)\<close>, a maker that acts at
  both stages.\<close>

definition dict_of_finisher :: "Lambda DictOf" where
  "dict_of_finisher =
     DictOf_init
       [(''json_type'', Literal (VStr ''foo'')),
        (''maker'', Wrapped \<lparr>cls = Lambda_cls, obj = Lambda_init func_foobar True True\<rparr>)]"



section \<open>Properties of the factory\<close>

subsection \<open>The assembly loop\<close>

lemma after_calls_0: "after_calls m 0 s = s"
  by (simp add: after_calls_def)

lemma after_calls_Suc: "after_calls m (Suc i) s = after_calls m i (snd (m s))"
  using funpow_swap1[of "\<lambda>t. snd (m t)" i s]
  by (simp add: after_calls_def)



lemma nth_result_Suc: "nth_result m s (Suc i) = nth_result m (snd (m s)) i"
  by (simp add: nth_result_def after_calls_Suc)


lemma assemble_loop_trace:
  "\<exists>k\<le>n. trace (snd (assemble_loop bp ps n docs w)) = trace w @ replicate k BlueprintAssemble"
proof (induction n arbitrary: docs w)
  case 0
  then show ?case by simp
next
  case (Suc n)
  obtain r s' where m: "assemble bp ps (ext w) = (r, s')" by (cases "assemble bp ps (ext w)")
  let ?w' = "\<lparr>trace = trace w @ [BlueprintAssemble], ext = s'\<rparr>"
  show ?case
  proof (cases r)
    case (Inl e)
    have "trace (snd (assemble_loop bp ps (Suc n) docs w)) = trace w @ replicate 1 BlueprintAssemble"
      using m Inl by (simp add: call_def)
    then show ?thesis by (intro exI[of _ 1]) simp
  next
    case (Inr d)
    from Suc.IH[of "docs @ [d]" ?w'] obtain k where k: "k \<le> n"
      "trace (snd (assemble_loop bp ps n (docs @ [d]) ?w')) = trace ?w' @ replicate k BlueprintAssemble"
      by blast
    have "trace (snd (assemble_loop bp ps (Suc n) docs w)) = trace w @ replicate (Suc k) BlueprintAssemble"
      using m Inr k(2) by (simp add: call_def)
    with k(1) show ?thesis by (intro exI[of _ "Suc k"]) simp
  qed
qed

lemma assemble_loop_ok:
  "\<forall>i<n. \<exists>d. nth_result (assemble bp ps) (ext w) i = Inr d \<Longrightarrow>
   assemble_loop bp ps n docs w =
     (Inr (docs @ map (\<lambda>i. projr (nth_result (assemble bp ps) (ext w) i)) [0..<n]),
      \<lparr>trace = trace w @ replicate n BlueprintAssemble, ext = after_calls (assemble bp ps) n (ext w)\<rparr>)"
proof (induction n arbitrary: docs w)
  case 0
  then show ?case by (simp add: after_calls_def)
next
  case (Suc n)
  from Suc.prems obtain d where d: "nth_result (assemble bp ps) (ext w) 0 = Inr d" by blast
  obtain s' where m: "assemble bp ps (ext w) = (Inr d, s')"
    using d by (cases "assemble bp ps (ext w)") (simp add: nth_result_def after_calls_def)
  let ?w' = "\<lparr>trace = trace w @ [BlueprintAssemble], ext = s'\<rparr>"
  have shift: "nth_result (assemble bp ps) (ext w) (Suc i) = nth_result (assemble bp ps) (ext ?w') i" for i
    using m by (simp add: nth_result_Suc)
  have "\<forall>i<n. \<exists>d. nth_result (assemble bp ps) (ext ?w') i = Inr d"
    using Suc.prems shift by (metis Suc_less_eq)
  from Suc.IH[OF this, of "docs @ [d]"]
  have step: "assemble_loop bp ps n (docs @ [d]) ?w' =
     (Inr ((docs @ [d]) @ map (\<lambda>i. projr (nth_result (assemble bp ps) (ext ?w') i)) [0..<n]),
      \<lparr>trace = trace ?w' @ replicate n BlueprintAssemble, ext = after_calls (assemble bp ps) n (ext ?w')\<rparr>)" .
  have lst: "map (\<lambda>i. projr (nth_result (assemble bp ps) (ext w) i)) [0..<Suc n]
      = d # map (\<lambda>i. projr (nth_result (assemble bp ps) (ext ?w') i)) [0..<n]"
    using d shift by (simp add: upt_conv_Cons map_Suc_upt[symmetric] del: upt_Suc)
  have "assemble_loop bp ps (Suc n) docs w = assemble_loop bp ps n (docs @ [d]) ?w'"
    using m by (simp add: call_def)
  also note step
  finally show ?case
    using lst m by (simp add: after_calls_Suc replicate_app_Cons_same del: upt_Suc)
qed

lemma Factory_assemble_trace:
  "\<exists>k. trace (snd (Factory_assemble self bp q w)) = trace w @ BlueprintReset # replicate k BlueprintAssemble"
proof -
  obtain r s1 where m: "reset bp (ext w) = (r, s1)" by (cases "reset bp (ext w)")
  let ?w1 = "\<lparr>trace = trace w @ [BlueprintReset], ext = s1\<rparr>"
  show ?thesis
  proof (cases "\<exists>n. r = Inr () \<and> py_int q = Inr n")
    case True
    then obtain n where n: "r = Inr ()" "py_int q = Inr n" by blast
    obtain k where "trace (snd (assemble_loop bp (presets self) (nat n) [] ?w1))
        = trace ?w1 @ replicate k BlueprintAssemble"
      using assemble_loop_trace[of "nat n" bp "presets self" "[]" ?w1] by blast
    then have "trace (snd (Factory_assemble self bp q w))
        = trace w @ BlueprintReset # replicate k BlueprintAssemble"
      using m n by (simp add: Factory_assemble_def call_def)
    then show ?thesis by blast
  next
    case False
    then have "trace (snd (Factory_assemble self bp q w))
        = trace w @ BlueprintReset # replicate 0 BlueprintAssemble"
      using m by (cases r; cases "py_int q") (simp_all add: Factory_assemble_def call_def)
    then show ?thesis by blast
  qed
qed

lemma Factory_assemble_ok:
  assumes r: "reset bp (ext w) = (Inr (), s1)"
    and q: "py_int q = Inr n"
    and ok: "\<forall>i<nat n. \<exists>d. nth_result (assemble bp (presets self)) s1 i = Inr d"
  shows "Factory_assemble self bp q w =
     (Inr (map (\<lambda>i. projr (nth_result (assemble bp (presets self)) s1 i)) [0..<nat n]),
      \<lparr>trace = trace w @ BlueprintReset # replicate (nat n) BlueprintAssemble,
       ext = after_calls (assemble bp (presets self)) (nat n) s1\<rparr>)"
proof -
  let ?w1 = "\<lparr>trace = trace w @ [BlueprintReset], ext = s1\<rparr>"
  have "Factory_assemble self bp q w = assemble_loop bp (presets self) (nat n) [] ?w1"
    using r q by (simp add: Factory_assemble_def call_def)
  also have "\<dots> = (Inr ([] @ map (\<lambda>i. projr (nth_result (assemble bp (presets self)) (ext ?w1) i)) [0..<nat n]),
      \<lparr>trace = trace ?w1 @ replicate (nat n) BlueprintAssemble,
       ext = after_calls (assemble bp (presets self)) (nat n) (ext ?w1)\<rparr>)"
    using ok by (intro assemble_loop_ok) simp
  finally show ?thesis by simp
qed

subsection \<open>The steps of populate\<close>

lemma Factory_populate_steps:
  assumes f: "Factory_finish self bp docs w = (Inr fin, w1)"
    and e: "ensure_frames (frame_cls bp) fin (ext w1) = (Inr frames, s_frames)"
    and p: "send ''factory_insert'' (frame_cls bp) frames s_frames = (Inr (), s_pre)"
    and i: "insert_many (frame_cls bp) frames s_pre = (r, s_ins)"
  shows "Factory_populate send self bp docs w =
    (case r of
       Inl e \<Rightarrow> (Inl e, \<lparr>trace = trace w1 @ [EnsureFrames fin, SignalSend ''factory_insert'' frames,
                                            InsertMany frames], ext = s_ins\<rparr>)
     | Inr frames' \<Rightarrow>
        (case send ''factory_inserted'' (frame_cls bp) frames' s_ins of
           (r', s_post) \<Rightarrow>
             (case r' of Inl e \<Rightarrow> Inl e | Inr u \<Rightarrow> Inr ReturnNone,
              \<lparr>trace = trace w1 @ [EnsureFrames fin, SignalSend ''factory_insert'' frames,
                   InsertMany frames, SignalSend ''factory_inserted'' frames'], ext = s_post\<rparr>)))"
  using f e p i
  by (simp add: Factory_populate_def call_def split: sum.split prod.split)

lemma Factory_populate_result:
  "Factory_populate send self bp docs w = (Inr r, w') \<Longrightarrow> r = ReturnNone"
  by (auto simp: Factory_populate_def split: sum.splits prod.splits)

subsection \<open>Claims about Factory.assemble\<close>

text \<open>
  C1, as the code has it. On every path \<open>Factory.assemble\<close> calls
  \<open>blueprint.reset()\<close> exactly once, before any assembly, and calls nothing but
  \<open>blueprint.assemble\<close> after it: no frame is made, no signal sent, nothing inserted.
  When the reset, \<open>int(quota)\<close> and the assemble calls return, it returns a list of
  exactly \<open>max(0, int(quota))\<close> documents whose \<open>i\<close>-th element is what the
  \<open>i\<close>-th call of \<open>blueprint.assemble(presets)\<close> returned.
\<close>

theorem Factory_assemble_documents:
  "(\<exists>k. trace (snd (Factory_assemble self bp q w))
          = trace w @ BlueprintReset # replicate k BlueprintAssemble) \<and>
   (reset bp (ext w) = (Inr (), s1) \<longrightarrow> py_int q = Inr n \<longrightarrow>
    (\<forall>i<nat n. \<exists>d. nth_result (assemble bp (presets self)) s1 i = Inr d) \<longrightarrow>
    (\<exists>docs w'. Factory_assemble self bp q w = (Inr docs, w') \<and>
       length docs = nat n \<and>
       (\<forall>i<nat n. nth_result (assemble bp (presets self)) s1 i = Inr (docs ! i)) \<and>
       trace w' = trace w @ BlueprintReset # replicate (nat n) BlueprintAssemble))"
proof (intro conjI impI)
  show "\<exists>k. trace (snd (Factory_assemble self bp q w))
          = trace w @ BlueprintReset # replicate k BlueprintAssemble"
    by (rule Factory_assemble_trace)
next
  assume r: "reset bp (ext w) = (Inr (), s1)" and q: "py_int q = Inr n"
    and ok: "\<forall>i<nat n. \<exists>d. nth_result (assemble bp (presets self)) s1 i = Inr d"
  let ?docs = "map (\<lambda>i. projr (nth_result (assemble bp (presets self)) s1 i)) [0..<nat n]"
  have nth: "\<forall>i<nat n. nth_result (assemble bp (presets self)) s1 i = Inr (?docs ! i)"
    using ok by fastforce
  show "\<exists>docs w'. Factory_assemble self bp q w = (Inr docs, w') \<and>
       length docs = nat n \<and>
       (\<forall>i<nat n. nth_result (assemble bp (presets self)) s1 i = Inr (docs ! i)) \<and>
       trace w' = trace w @ BlueprintReset # replicate (nat n) BlueprintAssemble"
    using Factory_assemble_ok[OF r q ok] nth by simp
qed

text \<open>
  The shop blueprint with the quota 5: five documents, numbered by the five calls.
\<close>

theorem Factory_assemble_documents_witness:
  "reset (shop_blueprint shop_frame_cls) (ext shop0)
      = (Inr (), \<lparr>counter = 0, received = [], stored = []\<rparr>) \<and>
   py_int (PyInt 5) = Inr 5 \<and>
   map (nth_result (assemble (shop_blueprint shop_frame_cls) (presets (Factory_init None)))
          \<lparr>counter = 0, received = [], stored = []\<rparr>) [0, 1, 2, 3, 4]
      = [Inr 0, Inr 1, Inr 2, Inr 3, Inr 4] \<and>
   fst (Factory_assemble (Factory_init None) (shop_blueprint shop_frame_cls) (PyInt 5) shop0)
      = Inr [0, 1, 2, 3, 4] \<and>
   trace (snd (Factory_assemble (Factory_init None) (shop_blueprint shop_frame_cls) (PyInt 5) shop0))
      = [BlueprintReset, BlueprintAssemble, BlueprintAssemble, BlueprintAssemble,
         BlueprintAssemble, BlueprintAssemble]"
proof -
  let ?bp = "shop_blueprint shop_frame_cls"
  let ?s1 = "\<lparr>counter = 0, received = [], stored = []\<rparr>"
  let ?F = "Factory_init None :: unit Factory"
  have r: "reset ?bp (ext shop0) = (Inr (), ?s1)"
    by (simp add: shop_blueprint_def shop0_def)
  have q: "py_int (PyInt 5) = Inr 5" by simp
  have st: "after_calls (assemble ?bp ps) i s = s\<lparr>counter := counter s + i\<rparr>" for ps i s
    by (induction i arbitrary: s) (simp_all add: after_calls_Suc, simp_all add: after_calls_def shop_blueprint_def)
  have c: "nth_result (assemble ?bp ps) ?s1 i = Inr i" for ps i
    by (simp add: nth_result_def st) (simp add: shop_blueprint_def)
  have ok: "\<forall>i<nat 5. \<exists>d. nth_result (assemble ?bp (presets ?F)) ?s1 i = Inr d"
    using c by simp
  from Factory_assemble_documents[of ?F ?bp "PyInt 5" shop0 ?s1 5] r q ok
  obtain docs w' where d: "Factory_assemble ?F ?bp (PyInt 5) shop0 = (Inr docs, w')"
    "length docs = nat 5" "\<forall>i<nat 5. nth_result (assemble ?bp (presets ?F)) ?s1 i = Inr (docs ! i)"
    "trace w' = trace shop0 @ BlueprintReset # replicate (nat 5) BlueprintAssemble"
    by blast
  have "\<forall>i<5. docs ! i = i" using d(3) c by simp
  with d(2) have "docs = [0, 1, 2, 3, 4]"
    by (intro nth_equalityI) (simp_all add: nth_Cons' )
  with d(1,4) r q c show ?thesis
    by (simp add: shop0_def numeral_eq_Suc)
qed

text \<open>
  C1 as stated asks for exactly \<open>int(q)\<close> documents for every quota. For the quota
  \<open>-1\<close> the loop \<open>range(0, -1)\<close> is empty and the list returned has no element,
  not \<open>-1\<close> of them.
\<close>

theorem Factory_assemble_negative_quota:
  "py_int (PyInt (- 1)) = Inr (- 1) \<and>
   fst (Factory_assemble (Factory_init None) (shop_blueprint shop_frame_cls) (PyInt (- 1)) shop0)
     = Inr [] \<and>
   int (length ([] :: nat list)) \<noteq> - 1"
  by (simp add: Factory_assemble_def call_def shop_blueprint_def shop0_def)

text \<open>
  C10. The quota goes through \<open>int(quota)\<close>; whenever that yields a number
  \<open>n \<le> 0\<close>, whatever the object, \<open>Factory.assemble\<close> calls
  \<open>blueprint.reset()\<close> once and nothing else, and returns the empty list (or passes
  on what the reset raised).
\<close>

theorem Factory_assemble_nonpositive:
  "py_int q = Inr n \<Longrightarrow> n \<le> 0 \<Longrightarrow>
   Factory_assemble self bp q w =
     (case reset bp (ext w) of
        (Inl e, s1) \<Rightarrow> (Inl e, \<lparr>trace = trace w @ [BlueprintReset], ext = s1\<rparr>)
      | (Inr u, s1) \<Rightarrow> (Inr [], \<lparr>trace = trace w @ [BlueprintReset], ext = s1\<rparr>))"
  by (simp add: Factory_assemble_def call_def split: prod.split sum.split)

text \<open>
  An object whose \<open>__int__\<close> answers \<open>-3\<close>: the counter is reset, no document
  is assembled.
\<close>

theorem Factory_assemble_nonpositive_witness:
  "py_int (PyObject (Inr (- 3))) = Inr (- 3) \<and> (- 3 :: int) \<le> 0 \<and>
   Factory_assemble (Factory_init None) (shop_blueprint shop_frame_cls) (PyObject (Inr (- 3))) shop0
     = (Inr [], \<lparr>trace = [BlueprintReset], ext = \<lparr>counter = 0, received = [], stored = []\<rparr>\<rparr>)"
proof -
  have q: "py_int (PyObject (Inr (- 3))) = Inr (- 3)" by simp
  have n: "(- 3 :: int) \<le> 0" by simp
  show ?thesis
    using Factory_assemble_nonpositive[OF q n, of "Factory_init None" "shop_blueprint shop_frame_cls" shop0]
    by (simp add: shop_blueprint_def shop0_def)
qed

subsection \<open>Claims about Factory.populate\<close>

text \<open>
  C2, as the code has it. Once the documents are finished, the frames made and the
  receivers of \<open>factory_insert\<close> have run, \<open>populate\<close> calls \<open>insert_many\<close>.
  When that raises, the exception is the outcome of \<open>populate\<close>, the last call made is
  the insert (\<open>factory_inserted\<close> is not sent) and the state is the one the insert left
  behind, so what the receivers of \<open>factory_insert\<close> did stays done. When the insert
  returns, \<open>factory_inserted\<close> is sent next, with the frames the insert returned.
\<close>

theorem Factory_populate_hooks:
  assumes "Factory_finish self bp docs w = (Inr fin, w1)"
    and "ensure_frames (frame_cls bp) fin (ext w1) = (Inr frames, s_frames)"
    and "send ''factory_insert'' (frame_cls bp) frames s_frames = (Inr (), s_pre)"
  shows "(insert_many (frame_cls bp) frames s_pre = (Inl e, s_ins) \<longrightarrow>
            Factory_populate send self bp docs w =
              (Inl e, \<lparr>trace = trace w1 @ [EnsureFrames fin, SignalSend ''factory_insert'' frames,
                                           InsertMany frames], ext = s_ins\<rparr>)) \<and>
         (insert_many (frame_cls bp) frames s_pre = (Inr frames', s_ins) \<longrightarrow>
            trace (snd (Factory_populate send self bp docs w)) =
              trace w1 @ [EnsureFrames fin, SignalSend ''factory_insert'' frames,
                          InsertMany frames, SignalSend ''factory_inserted'' frames'] \<and>
            ext (snd (Factory_populate send self bp docs w)) =
              snd (send ''factory_inserted'' (frame_cls bp) frames' s_ins))"
proof (intro conjI impI)
  assume i: "insert_many (frame_cls bp) frames s_pre = (Inl e, s_ins)"
  show "Factory_populate send self bp docs w =
      (Inl e, \<lparr>trace = trace w1 @ [EnsureFrames fin, SignalSend ''factory_insert'' frames,
                                   InsertMany frames], ext = s_ins\<rparr>)"
    using Factory_populate_steps[where send = send, OF assms i] by simp
next
  assume i: "insert_many (frame_cls bp) frames s_pre = (Inr frames', s_ins)"
  show "trace (snd (Factory_populate send self bp docs w)) =
      trace w1 @ [EnsureFrames fin, SignalSend ''factory_insert'' frames,
                  InsertMany frames, SignalSend ''factory_inserted'' frames']"
    using Factory_populate_steps[where send = send, OF assms i] by (simp split: prod.split)
  show "ext (snd (Factory_populate send self bp docs w)) =
      snd (send ''factory_inserted'' (frame_cls bp) frames' s_ins)"
    using Factory_populate_steps[where send = send, OF assms i] by (simp split: prod.split)
qed

text \<open>
  Both cases in the shop: with the frame class whose insert raises, and with the one that
  stores.
\<close>

theorem Factory_populate_hooks_witness:
  "Factory_finish (Factory_init None) (shop_blueprint broken_frame_cls) [0, 1] shop0
     = (Inr [100, 101], \<lparr>trace = [BlueprintReset, BlueprintFinish 0, BlueprintFinish 1],
                          ext = \<lparr>counter = 0, received = [], stored = []\<rparr>\<rparr>) \<and>
   insert_many broken_frame_cls [100, 101] \<lparr>counter = 0, received = [''factory_insert''], stored = []\<rparr>
     = (Inl (Raised ''insert_many''), \<lparr>counter = 0, received = [''factory_insert''], stored = []\<rparr>) \<and>
   Factory_populate shop_send (Factory_init None) (shop_blueprint broken_frame_cls) [0, 1] shop0
     = (Inl (Raised ''insert_many''),
        \<lparr>trace = [BlueprintReset, BlueprintFinish 0, BlueprintFinish 1, EnsureFrames [100, 101],
                  SignalSend ''factory_insert'' [100, 101], InsertMany [100, 101]],
         ext = \<lparr>counter = 0, received = [''factory_insert''], stored = []\<rparr>\<rparr>) \<and>
   insert_many shop_frame_cls [100, 101] \<lparr>counter = 0, received = [''factory_insert''], stored = []\<rparr>
     = (Inr [100, 101], \<lparr>counter = 0, received = [''factory_insert''], stored = [100, 101]\<rparr>) \<and>
   snd (Factory_populate shop_send (Factory_init None) (shop_blueprint shop_frame_cls) [0, 1] shop0)
     = \<lparr>trace = [BlueprintReset, BlueprintFinish 0, BlueprintFinish 1, EnsureFrames [100, 101],
                 SignalSend ''factory_insert'' [100, 101], InsertMany [100, 101],
                 SignalSend ''factory_inserted'' [100, 101]],
        ext = \<lparr>counter = 0, received = [''factory_insert'', ''factory_inserted''],
               stored = [100, 101]\<rparr>\<rparr>"
proof -
  let ?F = "Factory_init None :: unit Factory"
  let ?w1 = "\<lparr>trace = [BlueprintReset, BlueprintFinish 0, BlueprintFinish 1],
              ext = \<lparr>counter = 0, received = [], stored = []\<rparr>\<rparr>"
  let ?s_pre = "\<lparr>counter = 0, received = [''factory_insert''], stored = []\<rparr>"
  let ?s_ins = "\<lparr>counter = 0, received = [''factory_insert''], stored = [100, 101]\<rparr>"
  have f: "Factory_finish ?F (shop_blueprint fc) [0, 1] shop0 = (Inr [100, 101], ?w1)" for fc
    by (simp add: Factory_finish_def call_def shop_blueprint_def shop0_def)
  have e: "ensure_frames (frame_cls (shop_blueprint fc)) [100, 101] (ext ?w1)
      = (Inr [100, 101], ext ?w1)" if "fc = shop_frame_cls \<or> fc = broken_frame_cls" for fc
    using that by (auto simp: shop_blueprint_def shop_frame_cls_def broken_frame_cls_def)
  have p: "shop_send ''factory_insert'' (frame_cls (shop_blueprint fc)) [100, 101] (ext ?w1)
      = (Inr (), ?s_pre)" for fc
    by (simp add: shop_send_def)
  have bad: "insert_many (frame_cls (shop_blueprint broken_frame_cls)) [100, 101] ?s_pre
      = (Inl (Raised ''insert_many''), ?s_pre)"
    by (simp add: shop_blueprint_def broken_frame_cls_def)
  have good: "insert_many (frame_cls (shop_blueprint shop_frame_cls)) [100, 101] ?s_pre
      = (Inr [100, 101], ?s_ins)"
    by (simp add: shop_blueprint_def shop_frame_cls_def)
  note A = Factory_populate_hooks[where send = shop_send and e = "Raised ''insert_many''" and s_ins = ?s_pre, OF f e p,
      THEN conjunct1, rule_format, OF _ bad]
  note B = Factory_populate_hooks[where send = shop_send and frames' = "[100, 101]" and s_ins = ?s_ins, OF f e p,
      THEN conjunct2, rule_format, OF _ good]
  have ex: "w = \<lparr>trace = trace w, ext = ext w\<rparr>" for w :: "(shop, nat, nat) world" by simp
  show ?thesis
    using f A B bad good
    by (simp add: shop_blueprint_def shop_send_def ex[of "snd (Factory_populate shop_send ?F (shop_blueprint shop_frame_cls) [0, 1] shop0)"])
qed

text \<open>
  C2 as stated has the post-insert signal sent even when the bulk insert fails. In the
  shop whose \<open>insert_many\<close> raises, the receivers saw \<open>factory_insert\<close> only and the
  last call of \<open>populate\<close> is the insert.
\<close>

theorem Factory_populate_insert_failure:
  "Factory_populate shop_send (Factory_init None) (shop_blueprint broken_frame_cls) [0, 1] shop0
     = (Inl (Raised ''insert_many''),
        \<lparr>trace = [BlueprintReset, BlueprintFinish 0, BlueprintFinish 1, EnsureFrames [100, 101],
                  SignalSend ''factory_insert'' [100, 101], InsertMany [100, 101]],
         ext = \<lparr>counter = 0, received = [''factory_insert''], stored = []\<rparr>\<rparr>)"
  by (simp add: Factory_populate_def Factory_finish_def call_def shop_blueprint_def
      broken_frame_cls_def shop_send_def shop0_def)

text \<open>
  C9. \<open>Factory.populate\<close> never returns anything but \<open>None\<close>: not the finished
  documents, not the frames, not what the insert returned. And it does return \<open>None\<close>
  when every collaborator returns, after the frames have been made and inserted.
\<close>

theorem Factory_populate_returns_None:
  "(\<forall>r w'. Factory_populate send self bp docs w = (Inr r, w') \<longrightarrow> r = ReturnNone) \<and>
   (Factory_finish self bp docs w = (Inr fin, w1) \<longrightarrow>
    ensure_frames (frame_cls bp) fin (ext w1) = (Inr frames, s_frames) \<longrightarrow>
    send ''factory_insert'' (frame_cls bp) frames s_frames = (Inr (), s_pre) \<longrightarrow>
    insert_many (frame_cls bp) frames s_pre = (Inr frames', s_ins) \<longrightarrow>
    send ''factory_inserted'' (frame_cls bp) frames' s_ins = (Inr (), s_post) \<longrightarrow>
    Factory_populate send self bp docs w =
      (Inr ReturnNone,
       \<lparr>trace = trace w1 @ [EnsureFrames fin, SignalSend ''factory_insert'' frames,
                           InsertMany frames, SignalSend ''factory_inserted'' frames'],
        ext = s_post\<rparr>))"
proof (intro conjI allI impI)
  fix r w' assume "Factory_populate send self bp docs w = (Inr r, w')"
  then show "r = ReturnNone" by (rule Factory_populate_result)
next
  assume a: "Factory_finish self bp docs w = (Inr fin, w1)"
    "ensure_frames (frame_cls bp) fin (ext w1) = (Inr frames, s_frames)"
    "send ''factory_insert'' (frame_cls bp) frames s_frames = (Inr (), s_pre)"
    "insert_many (frame_cls bp) frames s_pre = (Inr frames', s_ins)"
    and b: "send ''factory_inserted'' (frame_cls bp) frames' s_ins = (Inr (), s_post)"
  show "Factory_populate send self bp docs w =
      (Inr ReturnNone,
       \<lparr>trace = trace w1 @ [EnsureFrames fin, SignalSend ''factory_insert'' frames,
                           InsertMany frames, SignalSend ''factory_inserted'' frames'],
        ext = s_post\<rparr>)"
    using Factory_populate_steps[where send = send, OF a] b by simp
qed

text \<open>
  The shop stores the frames 100 and 101, and the caller gets \<open>None\<close>.
\<close>

theorem Factory_populate_returns_None_witness:
  "Factory_populate shop_send (Factory_init None) (shop_blueprint shop_frame_cls) [0, 1] shop0
     = (Inr ReturnNone,
        \<lparr>trace = [BlueprintReset, BlueprintFinish 0, BlueprintFinish 1, EnsureFrames [100, 101],
                 SignalSend ''factory_insert'' [100, 101], InsertMany [100, 101],
                 SignalSend ''factory_inserted'' [100, 101]],
        ext = \<lparr>counter = 0, received = [''factory_insert'', ''factory_inserted''],
               stored = [100, 101]\<rparr>\<rparr>) \<and>
   ReturnNone \<noteq> (ReturnFrames [100, 101] :: (nat, nat) returned) \<and>
   ReturnNone \<noteq> (ReturnDocuments [100, 101] :: (nat, nat) returned)"
proof -
  let ?F = "Factory_init None :: unit Factory"
  let ?bp = "shop_blueprint shop_frame_cls"
  let ?w1 = "\<lparr>trace = [BlueprintReset, BlueprintFinish 0, BlueprintFinish 1],
              ext = \<lparr>counter = 0, received = [], stored = []\<rparr>\<rparr>"
  let ?s_pre = "\<lparr>counter = 0, received = [''factory_insert''], stored = []\<rparr>"
  let ?s_ins = "\<lparr>counter = 0, received = [''factory_insert''], stored = [100, 101]\<rparr>"
  let ?s_post = "\<lparr>counter = 0, received = [''factory_insert'', ''factory_inserted''], stored = [100, 101]\<rparr>"
  have f: "Factory_finish ?F ?bp [0, 1] shop0 = (Inr [100, 101], ?w1)"
    by (simp add: Factory_finish_def call_def shop_blueprint_def shop0_def)
  have e: "ensure_frames (frame_cls ?bp) [100, 101] (ext ?w1) = (Inr [100, 101], ext ?w1)"
    by (simp add: shop_blueprint_def shop_frame_cls_def)
  have p: "shop_send ''factory_insert'' (frame_cls ?bp) [100, 101] (ext ?w1) = (Inr (), ?s_pre)"
    by (simp add: shop_send_def)
  have i: "insert_many (frame_cls ?bp) [100, 101] ?s_pre = (Inr [100, 101], ?s_ins)"
    by (simp add: shop_blueprint_def shop_frame_cls_def)
  have q: "shop_send ''factory_inserted'' (frame_cls ?bp) [100, 101] ?s_ins = (Inr (), ?s_post)"
    by (simp add: shop_send_def)
  show ?thesis
    using Factory_populate_returns_None[of shop_send ?F ?bp "[0, 1]" shop0 "[100, 101]" ?w1
        "[100, 101]" "ext ?w1" ?s_pre "[100, 101]" ?s_ins ?s_post, THEN conjunct2, rule_format, OF f e p i q]
    by simp
qed


section \<open>Properties of the makers\<close>

lemma after_calls_Suc_last: "after_calls m (Suc i) s = snd (m (after_calls m i s))"
  by (simp add: after_calls_def)

text \<open>
  C4. For every maker and every document, the block of \<open>with maker.target(d)\<close>
  runs with \<open>maker.document = d\<close> (a block that starts by reading the attribute
  gets \<open>d\<close>); the outcome of the statement is the outcome of the block, exception
  or not; and on every exit \<open>maker.document\<close> is \<open>None\<close> again.
\<close>

theorem target_scoped:
  "document (snd (target d body m)) = VNone \<and>
   fst (target d body m) = fst (body (m\<lparr>document := d\<rparr>)) \<and>
   target d (\<lambda>self. k (document self) self) m = target d (k d) m"
  by (simp add: target_def split: prod.split)

lemma Cycle_after_calls:
  assumes "items c \<noteq> []" and "item_index c < length (items c)"
  shows "after_calls Cycle_assemble i c
           = c\<lparr>item_index := (item_index c + i) mod length (items c)\<rparr>"
proof (induction i)
  case 0
  then show ?case using assms by (simp add: after_calls_0)
next
  case (Suc i)
  let ?k = "length (items c)"
  have k: "0 < ?k" using assms(1) by simp
  have "(item_index c + i) mod ?k < ?k" using k by simp
  then have "(if (item_index c + i) mod ?k + 1 \<ge> ?k then 0 else (item_index c + i) mod ?k + 1)
      = (item_index c + Suc i) mod ?k"
    by (simp add: mod_Suc)
  then have "snd (Cycle_assemble (c\<lparr>item_index := (item_index c + i) mod ?k\<rparr>))
      = c\<lparr>item_index := (item_index c + Suc i) mod ?k\<rparr>"
    by (simp add: Cycle_assemble_def Let_def)
  then show ?case
    unfolding after_calls_Suc_last Suc.IH .
qed

lemma Cycle_nth_result:
  assumes "items c \<noteq> []" and "item_index c < length (items c)"
  shows "nth_result Cycle_assemble c i
           = Inr (VInt (int ((item_index c + i) mod length (items c))))"
  by (simp add: nth_result_def Cycle_after_calls[OF assms] Cycle_assemble_def Let_def)

text \<open>
  C5. For a cycle over a pool \<open>P\<close> of size \<open>k > 0\<close>, the \<open>i\<close>-th assemble
  call (counted from zero) after construction, or after \<open>reset()\<close> of a cycle over
  that pool, returns the index \<open>i mod k\<close>; the cursor lives on between the calls
  (after \<open>i\<close> calls it stands at \<open>i mod k\<close>) and \<open>reset()\<close> puts it back to 0;
  finishing maps an index \<open>j < k\<close> to \<open>P[j]\<close>, so the \<open>i\<close>-th assembled value
  finishes to \<open>P[i mod k]\<close>.
\<close>

theorem Cycle_index:
  "P \<noteq> [] \<longrightarrow>
     nth_result Cycle_assemble (Cycle_init P) i = Inr (VInt (int (i mod length P))) \<and>
     item_index (after_calls Cycle_assemble i (Cycle_init P)) = i mod length P \<and>
     item_index (Cycle_reset c) = 0 \<and>
     (items c = P \<longrightarrow>
        nth_result Cycle_assemble (Cycle_reset c) i = Inr (VInt (int (i mod length P))) \<and>
        (\<forall>j<length P. fst (Cycle_finish (VInt (int j)) c) = Inr (P ! j)) \<and>
        (\<exists>a. nth_result Cycle_assemble (Cycle_reset c) i = Inr a \<and>
              fst (Cycle_finish a c) = Inr (P ! (i mod length P))))"
proof (intro impI conjI allI)
  assume P: "P \<noteq> []"
  have i0: "items (Cycle_init P) \<noteq> []" "item_index (Cycle_init P) < length (items (Cycle_init P))"
    using P by (simp_all add: Cycle_init_def)
  show "nth_result Cycle_assemble (Cycle_init P) i = Inr (VInt (int (i mod length P)))"
    using Cycle_nth_result[OF i0, of i] by (simp add: Cycle_init_def)
  show "item_index (after_calls Cycle_assemble i (Cycle_init P)) = i mod length P"
    using Cycle_after_calls[OF i0, of i] by (simp add: Cycle_init_def)
  show "item_index (Cycle_reset c) = 0" by (simp add: Cycle_reset_def)
  assume c: "items c = P"
  have r0: "items (Cycle_reset c) \<noteq> []" "item_index (Cycle_reset c) < length (items (Cycle_reset c))"
    using P c by (simp_all add: Cycle_reset_def)
  show r: "nth_result Cycle_assemble (Cycle_reset c) i = Inr (VInt (int (i mod length P)))"
    using Cycle_nth_result[OF r0, of i] c by (simp add: Cycle_reset_def)
  have fin: "fst (Cycle_finish (VInt (int j)) c) = Inr (P ! j)" if "j < length P" for j
    using that c by (simp add: Cycle_finish_def py_getitem_def)
  show "\<And>j. j < length P \<Longrightarrow> fst (Cycle_finish (VInt (int j)) c) = Inr (P ! j)"
    by (rule fin)
  have "i mod length P < length P" using P by simp
  from fin[OF this] r
  show "\<exists>a. nth_result Cycle_assemble (Cycle_reset c) i = Inr a \<and>
              fst (Cycle_finish a c) = Inr (P ! (i mod length P))"
    by blast
qed

text \<open>
  The pool \<open>list('abcde')\<close>: call number 7 returns index 2, which finishes to
  \<open>'c'\<close>; after a reset the next call returns index 0.
\<close>

theorem Cycle_index_witness:
  "abcde \<noteq> [] \<and> items (Cycle_init abcde) = abcde \<and>
   nth_result Cycle_assemble (Cycle_init abcde) 7 = Inr (VInt 2) \<and>
   item_index (after_calls Cycle_assemble 7 (Cycle_init abcde)) = 2 \<and>
   nth_result Cycle_assemble (Cycle_reset (after_calls Cycle_assemble 7 (Cycle_init abcde))) 0
      = Inr (VInt 0) \<and>
   fst (Cycle_finish (VInt 2) (Cycle_init abcde)) = Inr (VStr ''c'')"
proof -
  have P: "abcde \<noteq> []" by (simp add: abcde_def)
  have c: "items (Cycle_init abcde) = abcde" by (simp add: Cycle_init_def)
  have l: "length abcde = 5" by (simp add: abcde_def)
  have c7: "items (after_calls Cycle_assemble 7 (Cycle_init abcde)) = abcde"
    using Cycle_after_calls[of "Cycle_init abcde" 7] P by (simp add: Cycle_init_def)
  note A = Cycle_index[of abcde 7 "Cycle_init abcde"]
  note B = Cycle_index[of abcde 0 "after_calls Cycle_assemble 7 (Cycle_init abcde)"]
  have a1: "nth_result Cycle_assemble (Cycle_init abcde) 7 = Inr (VInt (int (7 mod length abcde)))"
    and a2: "item_index (after_calls Cycle_assemble 7 (Cycle_init abcde)) = 7 mod length abcde"
    and a3: "\<forall>j<length abcde. fst (Cycle_finish (VInt (int j)) (Cycle_init abcde)) = Inr (abcde ! j)"
    using A P c by blast+
  have b1: "nth_result Cycle_assemble (Cycle_reset (after_calls Cycle_assemble 7 (Cycle_init abcde))) 0
      = Inr (VInt (int (0 mod length abcde)))"
    using B P c7 by blast
  have f: "fst (Cycle_finish (VInt (int 2)) (Cycle_init abcde)) = Inr (abcde ! 2)"
    using a3[rule_format, of 2] l by simp
  show ?thesis
    using P c a1 a2 b1 f l by (simp add: abcde_def)
qed


subsection \<open>Unique\<close>

lemma get_unique_fresh:
  "get_unique n gen used s = (Inr v, s') \<Longrightarrow> v \<notin> used"
  by (induction n arbitrary: s) (auto split: prod.splits sum.splits if_splits)

lemma get_unique_pos:
  "0 < n \<Longrightarrow> get_unique n gen used s =
     (case gen s of
        (Inl e, s') \<Rightarrow> (Inl e, s')
      | (Inr v, s') \<Rightarrow> if v \<notin> used then (Inr v, s') else get_unique (n - 1) gen used s')"
  by (cases n) (simp_all split: prod.split sum.split)

lemma get_unique_exhausted:
  assumes "\<forall>s. I s \<longrightarrow> (\<exists>v. fst (gen s) = Inr v \<and> v \<in> used) \<and> I (snd (gen s))"
  shows "I s \<Longrightarrow> get_unique n gen used s = (Inl AssertionError, after_calls gen n s)"
proof (induction n arbitrary: s)
  case 0
  then show ?case by (simp add: after_calls_0)
next
  case (Suc n)
  from assms Suc.prems obtain v where v: "fst (gen s) = Inr v" "v \<in> used" and I: "I (snd (gen s))"
    by blast
  obtain s' where g: "gen s = (Inr v, s')" using v(1) by (cases "gen s") simp
  from Suc.IH[of s'] I g have "get_unique n gen used s' = (Inl AssertionError, after_calls gen n s')"
    by simp
  then show ?case using g v(2) by (simp add: after_calls_Suc)
qed

lemma get_unique_range:
  assumes "\<forall>s. I s \<longrightarrow> (\<exists>v. fst (gen s) = Inr v \<and> v \<in> V) \<and> I (snd (gen s))"
  shows "I s \<Longrightarrow> I (snd (get_unique n gen used s)) \<and>
           (fst (get_unique n gen used s) = Inl AssertionError \<or>
            (\<exists>v\<in>V. v \<notin> used \<and> fst (get_unique n gen used s) = Inr v))"
proof (induction n arbitrary: s)
  case 0
  then show ?case by simp
next
  case (Suc n)
  from assms Suc.prems obtain v where v: "fst (gen s) = Inr v" "v \<in> V" and I: "I (snd (gen s))"
    by blast
  obtain s' where g: "gen s = (Inr v, s')" using v(1) by (cases "gen s") simp
  show ?case
  proof (cases "v \<in> used")
    case True
    then have "get_unique (Suc n) gen used s = get_unique n gen used s'" using g by simp
    moreover have "I s'" using I g by simp
    ultimately show ?thesis using Suc.IH[of s'] by simp
  next
    case False
    then have "get_unique (Suc n) gen used s = (Inr v, s')" using g by simp
    then show ?thesis using v(2) False I g by simp
  qed
qed

lemma get_unique_first:
  assumes "\<forall>s. I s \<longrightarrow> (\<exists>v. fst (gen s) = Inr v \<and> v \<in> V) \<and> I (snd (gen s))"
    and "I s" and "0 < n"
  shows "\<exists>v\<in>V. fst (get_unique n gen {} s) = Inr v"
proof -
  from assms(1,2) obtain v where v: "fst (gen s) = Inr v" "v \<in> V" by blast
  obtain s' where g: "gen s = (Inr v, s')" using v(1) by (cases "gen s") simp
  then have "get_unique n gen {} s = (Inr v, s')" using assms(3) by (simp add: get_unique_pos)
  then show ?thesis using v(2) by force
qed

text \<open>What one step changes in a Unique maker.\<close>

lemma Unique_get_unique_frame:
  assumes "Unique_get_unique gen u = (r, u')"
  shows "assembler u' = assembler u \<and> max_attempts u' = max_attempts u \<and>
         exclude u' = exclude u \<and>
         used_values u' = (case r of Inl e \<Rightarrow> used_values u | Inr v \<Rightarrow> insert v (used_values u)) \<and>
         (\<forall>v. r = Inr v \<longrightarrow> v \<notin> used_values u) \<and>
         (r, wrapped u') = get_unique (max_attempts u) gen (used_values u) (wrapped u)"
proof (cases "get_unique (max_attempts u) gen (used_values u) (wrapped u)")
  case (Pair r0 m')
  show ?thesis
  proof (cases r0)
    case (Inl e)
    with Pair assms show ?thesis by (auto simp: Unique_get_unique_def)
  next
    case (Inr v)
    with Pair have "v \<notin> used_values u" using get_unique_fresh by metis
    with Pair Inr assms show ?thesis by (auto simp: Unique_get_unique_def)
  qed
qed

lemma Unique_run_length: "length (fst (Unique_run sts u)) = length sts"
proof (induction sts arbitrary: u)
  case Nil
  then show ?case by simp
next
  case (Cons st sts)
  obtain r u' where s: "Unique_step st u = (r, u')" by (cases "Unique_step st u")
  obtain rs u'' where t: "Unique_run sts u' = (rs, u'')" by (cases "Unique_run sts u'")
  from Cons.IH[of u'] t have "length rs = length sts" by simp
  then show ?case using s t by simp
qed

lemma obj_assemble_lift:
  assumes "\<forall>s. I s \<longrightarrow> (\<exists>v. fst (m_assemble C s) = Inr v \<and> v \<in> V) \<and> I (snd (m_assemble C s))"
  shows "\<forall>m. (cls m = C \<and> I (obj m)) \<longrightarrow>
           (\<exists>v. fst (obj_assemble m) = Inr v \<and> v \<in> V) \<and>
           (cls (snd (obj_assemble m)) = C \<and> I (obj (snd (obj_assemble m))))"
  using assms by (auto simp: obj_assemble_def split: prod.splits)

lemma Unique_assemble_range:
  assumes H: "\<forall>s. I s \<longrightarrow> (\<exists>v. fst (m_assemble C s) = Inr v \<and> v \<in> V) \<and> I (snd (m_assemble C s))"
    and K: "assembler u" "cls (wrapped u) = C" "I (obj (wrapped u))"
    and a: "Unique_assemble u = (r, u')"
  shows "assembler u' \<and> cls (wrapped u') = C \<and> I (obj (wrapped u')) \<and>
         max_attempts u' = max_attempts u \<and>
         (r = Inl AssertionError \<and> used_values u' = used_values u \<or>
          (\<exists>v\<in>V. v \<notin> used_values u \<and> r = Inr v \<and> used_values u' = insert v (used_values u)))"
proof -
  from a K(1) have g: "Unique_get_unique obj_assemble u = (r, u')"
    by (simp add: Unique_assemble_def)
  note fr = Unique_get_unique_frame[OF g]
  then have eq: "get_unique (max_attempts u) obj_assemble (used_values u) (wrapped u) = (r, wrapped u')"
    by simp
  from get_unique_range[where I = "\<lambda>m. cls m = C \<and> I (obj m)", OF obj_assemble_lift[OF H],
      of "wrapped u" "max_attempts u" "used_values u"] K eq
  have "cls (wrapped u') = C \<and> I (obj (wrapped u'))"
    and "r = Inl AssertionError \<or> (\<exists>v\<in>V. v \<notin> used_values u \<and> r = Inr v)"
    by simp_all
  with fr K(1) show ?thesis by (auto split: sum.splits)
qed

lemma Unique_run_assembles:
  assumes H: "\<forall>s. I s \<longrightarrow> (\<exists>v. fst (m_assemble C s) = Inr v \<and> v \<in> V) \<and> I (snd (m_assemble C s))"
  shows "assembler u \<Longrightarrow> cls (wrapped u) = C \<Longrightarrow> I (obj (wrapped u)) \<Longrightarrow>
         (\<forall>r\<in>set (fst (Unique_run (replicate n Assemble) u)). isl r \<longrightarrow> r = Inl AssertionError) \<and>
         distinct (map projr (filter (\<lambda>r. \<not> isl r) (fst (Unique_run (replicate n Assemble) u)))) \<and>
         set (map projr (filter (\<lambda>r. \<not> isl r) (fst (Unique_run (replicate n Assemble) u))))
           \<subseteq> V - used_values u"
proof (induction n arbitrary: u)
  case 0
  then show ?case by simp
next
  case (Suc n)
  obtain r u' where a: "Unique_assemble u = (r, u')" by (cases "Unique_assemble u")
  obtain rs u'' where t: "Unique_run (replicate n Assemble) u' = (rs, u'')"
    by (cases "Unique_run (replicate n Assemble) u'")
  have run: "fst (Unique_run (replicate (Suc n) Assemble) u) = r # rs" using a t by simp
  note rg = Unique_assemble_range[OF H Suc.prems a]
  then have K': "assembler u'" "cls (wrapped u') = C" "I (obj (wrapped u'))" by simp_all
  from Suc.IH[OF K'] t
  have ih: "\<forall>r\<in>set rs. isl r \<longrightarrow> r = Inl AssertionError"
    "distinct (map projr (filter (\<lambda>r. \<not> isl r) rs))"
    "set (map projr (filter (\<lambda>r. \<not> isl r) rs)) \<subseteq> V - used_values u'"
    by simp_all
  from rg consider
      (fail) "r = Inl AssertionError" "used_values u' = used_values u"
    | (ok) v where "v \<in> V" "v \<notin> used_values u" "r = Inr v" "used_values u' = insert v (used_values u)"
    by blast
  then show ?case
  proof cases
    case fail
    with ih show ?thesis unfolding run by simp
  next
    case ok
    from ih(3) ok(4) have "v \<notin> set (map projr (filter (\<lambda>r. \<not> isl r) rs))" by blast
    moreover from ih(3) ok(4) have "set (map projr (filter (\<lambda>r. \<not> isl r) rs)) \<subseteq> V - used_values u"
      by blast
    ultimately show ?thesis using ih(1,2) ok(1,2,3) unfolding run by simp
  qed
qed

lemma Unique_run_pigeonhole:
  assumes H: "\<forall>s. I s \<longrightarrow> (\<exists>v. fst (m_assemble C s) = Inr v \<and> v \<in> V) \<and> I (snd (m_assemble C s))"
    and K: "assembler u" "cls (wrapped u) = C" "I (obj (wrapped u))"
    and V: "finite V" "card V < n"
  shows "Inl AssertionError \<in> set (fst (Unique_run (replicate n Assemble) u))"
proof -
  let ?rs = "fst (Unique_run (replicate n Assemble) u)"
  let ?S = "map projr (filter (\<lambda>r. \<not> isl r) ?rs)"
  note R = Unique_run_assembles[OF H K, of n]
  from R have d: "distinct ?S" and sub: "set ?S \<subseteq> V" by blast+
  have "length ?S = card (set ?S)" using distinct_card[OF d] by simp
  also have "\<dots> \<le> card V" using sub V(1) by (rule card_mono[rotated])
  also have "\<dots> < length ?rs" using V(2) by (simp add: Unique_run_length)
  finally have "length (filter (\<lambda>r. \<not> isl r) ?rs) < length ?rs" by simp
  then obtain r where "r \<in> set ?rs" "isl r"
    by (metis filter_True less_irrefl)
  with R show ?thesis by auto
qed

lemma Unique_assemble_exhausted:
  assumes H: "\<forall>s. I s \<longrightarrow> (\<exists>v. fst (m_assemble C s) = Inr v \<and> v \<in> V) \<and> I (snd (m_assemble C s))"
    and K: "assembler u" "cls (wrapped u) = C" "I (obj (wrapped u))"
    and V: "V \<subseteq> used_values u"
  shows "Unique_assemble u =
           (Inl AssertionError,
            u\<lparr>wrapped := after_calls obj_assemble (max_attempts u) (wrapped u)\<rparr>)"
proof -
  have "\<forall>m. (cls m = C \<and> I (obj m)) \<longrightarrow>
           (\<exists>v. fst (obj_assemble m) = Inr v \<and> v \<in> used_values u) \<and>
           (cls (snd (obj_assemble m)) = C \<and> I (obj (snd (obj_assemble m))))"
    using obj_assemble_lift[OF H] V by blast
  from get_unique_exhausted[where I = "\<lambda>m. cls m = C \<and> I (obj m)", OF this, of "wrapped u" "max_attempts u"] K
  have "get_unique (max_attempts u) obj_assemble (used_values u) (wrapped u)
      = (Inl AssertionError, after_calls obj_assemble (max_attempts u) (wrapped u))"
    by simp
  then show ?thesis using K(1) by (simp add: Unique_assemble_def Unique_get_unique_def)
qed

lemma Unique_assemble_after_reset:
  assumes H: "\<forall>s. I s \<longrightarrow> (\<exists>v. fst (m_assemble C s) = Inr v \<and> v \<in> V) \<and> I (snd (m_assemble C s))"
    and K: "assembler u" "cls (wrapped u) = C" "I (obj (wrapped u))"
    and k: "0 < max_attempts u"
  shows "\<exists>v\<in>V. fst (Unique_assemble (Unique_reset u)) = Inr v"
proof -
  from get_unique_first[where I = "\<lambda>m. cls m = C \<and> I (obj m)", OF obj_assemble_lift[OF H] _ k, of "wrapped u"] K
  obtain v where v: "v \<in> V" "fst (get_unique (max_attempts u) obj_assemble {} (wrapped u)) = Inr v"
    by auto
  obtain m' where "get_unique (max_attempts u) obj_assemble {} (wrapped u) = (Inr v, m')"
    using v(2) by (cases "get_unique (max_attempts u) obj_assemble {} (wrapped u)") simp
  then have "fst (Unique_assemble (Unique_reset u)) = Inr v"
    using K(1) by (simp add: Unique_assemble_def Unique_get_unique_def Unique_reset_def)
  with v(1) show ?thesis by blast
qed

text \<open>
  C3. A \<open>Unique\<close> maker (acting at assembly, the default) around a maker that
  never raises and whose values all lie in a finite set \<open>V\<close>. Every generation step
  returns: a run of steps has one outcome per step. Every assembly either returns a
  value of \<open>V\<close> or raises \<open>AssertionError\<close>, which is also the outcome of
  \<open>maker._finish(maker._assemble())\<close> then. Asking for more values than \<open>V\<close> has
  (\<open>n > card V\<close> assemblies in a row) meets the failure; once every value of \<open>V\<close>
  has been emitted each assembly fails, after exactly \<open>max_attempts\<close> calls of the
  wrapped maker. \<open>reset()\<close> clears the set of seen values, and the next assembly
  (with a ceiling of at least one attempt) returns a value again.
\<close>

theorem Unique_exhaustion:
  assumes "assembler u" and "finite V" and "I (obj (wrapped u))"
    and "\<forall>s. I s \<longrightarrow> (\<exists>v. fst (m_assemble (cls (wrapped u)) s) = Inr v \<and> v \<in> V) \<and>
                     I (snd (m_assemble (cls (wrapped u)) s))"
  shows "length (fst (Unique_run sts u)) = length sts \<and>
         (fst (Unique_assemble u) = Inl AssertionError \<or> (\<exists>v\<in>V. fst (Unique_assemble u) = Inr v)) \<and>
         (\<forall>e. fst (Unique_assemble u) = Inl e \<longrightarrow>
               fst (assemble_finish Unique_assemble Unique_finish u) = Inl e) \<and>
         (card V < n \<longrightarrow> Inl AssertionError \<in> set (fst (Unique_run (replicate n Assemble) u))) \<and>
         (V \<subseteq> used_values u \<longrightarrow>
            Unique_assemble u =
              (Inl AssertionError,
               u\<lparr>wrapped := after_calls obj_assemble (max_attempts u) (wrapped u)\<rparr>)) \<and>
         used_values (Unique_reset u) = {} \<and>
         (0 < max_attempts u \<longrightarrow> (\<exists>v\<in>V. fst (Unique_assemble (Unique_reset u)) = Inr v))"
proof (intro conjI impI allI)
  note H = assms(4)
  have K: "assembler u" "cls (wrapped u) = cls (wrapped u)" "I (obj (wrapped u))"
    using assms by simp_all
  show "length (fst (Unique_run sts u)) = length sts" by (rule Unique_run_length)
  obtain r u' where a: "Unique_assemble u = (r, u')" by (cases "Unique_assemble u")
  from Unique_assemble_range[OF H K a]
  show "fst (Unique_assemble u) = Inl AssertionError \<or> (\<exists>v\<in>V. fst (Unique_assemble u) = Inr v)"
    unfolding a by auto
  show "fst (assemble_finish Unique_assemble Unique_finish u) = Inl e"
    if "fst (Unique_assemble u) = Inl e" for e
    using that by (cases "Unique_assemble u") (simp add: assemble_finish_def)
  show "Inl AssertionError \<in> set (fst (Unique_run (replicate n Assemble) u))" if "card V < n"
    using Unique_run_pigeonhole[OF H K assms(2) that] .
  show "Unique_assemble u =
      (Inl AssertionError, u\<lparr>wrapped := after_calls obj_assemble (max_attempts u) (wrapped u)\<rparr>)"
    if "V \<subseteq> used_values u"
    using Unique_assemble_exhausted[OF H K that] .
  show "used_values (Unique_reset u) = {}" by (simp add: Unique_reset_def)
  show "\<exists>v\<in>V. fst (Unique_assemble (Unique_reset u)) = Inr v" if "0 < max_attempts u"
    using Unique_assemble_after_reset[OF H K that] .
qed

text \<open>
  \<open>Unique(Static('foo'))\<close> with a ceiling of 1000 attempts: the first assembly
  returns \<open>'foo'\<close>, the second one fails, and so does
  \<open>maker._finish(maker._assemble())\<close> there; after \<open>reset()\<close> the assembly
  returns \<open>'foo'\<close> again.
\<close>

theorem Unique_exhaustion_witness:
  "fst (Unique_assemble (Unique_init (Static_obj (VStr ''foo'')) {} True 1000)) = Inr (VStr ''foo'') \<and>
   used_values (snd (Unique_assemble (Unique_init (Static_obj (VStr ''foo'')) {} True 1000)))
     = {VStr ''foo''} \<and>
   fst (Unique_assemble (snd (Unique_assemble (Unique_init (Static_obj (VStr ''foo'')) {} True 1000))))
     = Inl AssertionError \<and>
   fst (assemble_finish Unique_assemble Unique_finish
          (snd (Unique_assemble (Unique_init (Static_obj (VStr ''foo'')) {} True 1000))))
     = Inl AssertionError \<and>
   Inl AssertionError
     \<in> set (fst (Unique_run [Assemble, Assemble] (Unique_init (Static_obj (VStr ''foo'')) {} True 1000))) \<and>
   fst (Unique_assemble (Unique_reset
          (snd (Unique_assemble (Unique_init (Static_obj (VStr ''foo'')) {} True 1000)))))
     = Inr (VStr ''foo'')"
proof -
  let ?foo = "VStr ''foo''"
  let ?u0 = "Unique_init (Static_obj ?foo) {} True 1000"
  let ?u1 = "?u0\<lparr>used_values := {?foo}\<rparr>"
  let ?I = "\<lambda>s. assembler s \<and> static_value s = ?foo"
  have a0: "Unique_assemble ?u0 = (Inr ?foo, ?u1)"
    by (simp add: Unique_assemble_def Unique_get_unique_def Unique_init_def get_unique_pos
        obj_assemble_def Static_obj_def Static_cls_def Static_assemble_def Static_init_def)
  have c0: "cls (wrapped ?u0) = Static_cls" and c1: "cls (wrapped ?u1) = Static_cls"
    by (simp_all add: Unique_init_def Static_obj_def)
  have S: "\<forall>s. ?I s \<longrightarrow> (\<exists>v. fst (m_assemble Static_cls s) = Inr v \<and> v \<in> {?foo}) \<and>
                     ?I (snd (m_assemble Static_cls s))"
    by (simp add: Static_cls_def Static_assemble_def)
  have fin: "finite {?foo}" by simp
  have A0: "assembler ?u0" "?I (obj (wrapped ?u0))"
    and A1: "assembler ?u1" "?I (obj (wrapped ?u1))"
    by (simp_all add: Unique_init_def Static_obj_def Static_init_def)
  note W0 = Unique_exhaustion[where I = ?I and V = "{?foo}" and u = ?u0 and n = 2 and sts = "[]",
      OF A0(1) fin A0(2) S[folded c0]]
  note W1 = Unique_exhaustion[where I = ?I and V = "{?foo}" and u = ?u1 and n = 2 and sts = "[]",
      OF A1(1) fin A1(2) S[folded c1]]
  have sub: "{?foo} \<subseteq> used_values ?u1" by simp
  have k: "0 < max_attempts ?u1" by (simp add: Unique_init_def)
  have f: "fst (Unique_assemble ?u1) = Inl AssertionError"
    using W1 sub by simp
  have ff: "fst (assemble_finish Unique_assemble Unique_finish ?u1) = Inl AssertionError"
    using W1 f by simp
  have r: "fst (Unique_assemble (Unique_reset ?u1)) = Inr ?foo"
    using W1 k by simp
  have p: "Inl AssertionError \<in> set (fst (Unique_run (replicate 2 Assemble) ?u0))"
    using W0 by simp
  have rep: "replicate 2 Assemble = [Assemble, Assemble]" by (simp add: numeral_2_eq_2)
  show ?thesis
    unfolding a0 using f ff r p unfolding rep by simp
qed


subsection \<open>ListOf\<close>





lemma calls_made_map_Inr: "calls_made (map Inr vs) = length vs"
  by (induction vs) simp_all














subsection \<open>DictOf\<close>

lemma assemble_table_collect:
  "fst (assemble_table t) = collect (map entry_assembled t)"
proof (induction t rule: assemble_table.induct)
  case 1
  then show ?case by simp
next
  case (2 k v rest)
  then show ?case by (cases "assemble_table rest") (auto split: sum.splits)
next
  case (3 k m rest)
  show ?case
  proof (cases "obj_assemble m")
    case (Pair r m')
    show ?thesis
    proof (cases r)
      case (Inl e)
      with Pair show ?thesis by simp
    next
      case (Inr a)
      with Pair 3[of r m' a] show ?thesis
        by (cases "assemble_table rest") (auto split: sum.splits)
    qed
  qed
qed

lemma assemble_table_after:
  "fst (assemble_table t) = Inr out \<Longrightarrow> snd (assemble_table t) = map entry_after_assembly t"
proof (induction t arbitrary: out rule: assemble_table.induct)
  case 1
  then show ?case by simp
next
  case (2 k v rest)
  then show ?case by (auto split: prod.splits sum.splits)
next
  case (3 k m rest)
  show ?case
  proof (cases "obj_assemble m")
    case (Pair r m')
    show ?thesis
    proof (cases r)
      case (Inl e)
      with Pair 3(2) show ?thesis by simp
    next
      case (Inr a)
      with Pair 3(1)[of r m' a] 3(2) show ?thesis by (auto split: prod.splits sum.splits)
    qed
  qed
qed

lemma finish_table_collect:
  "fst (finish_table d t) = collect (map (entry_finished d) t)"
proof (induction d t rule: finish_table.induct)
  case (1 d)
  then show ?case by simp
next
  case (2 d k v rest)
  then show ?case by (cases "finish_table d rest") (auto split: sum.splits)
next
  case (3 d k m rest)
  show ?case
  proof (cases "py_lookup d k")
    case (Inl e)
    then show ?thesis by simp
  next
    case (Inr a)
    show ?thesis
    proof (cases "obj_finish a m")
      case (Pair r m')
      show ?thesis
      proof (cases r)
        case (Inl e)
        with Pair Inr show ?thesis by simp
      next
        case Inr': (Inr w)
        with Pair Inr 3[of a r m' w] show ?thesis
          by (cases "finish_table d rest") (auto split: sum.splits)
      qed
    qed
  qed
qed

lemma py_lookup_distinct:
  "distinct (map fst d) \<Longrightarrow> (k, a) \<in> set d \<Longrightarrow> py_lookup d k = Inr a"
  by (induction d) (auto simp: rev_image_eqI)

lemma collect_map_Inr: "collect (map Inr vs) = Inr vs"
  by (induction vs) simp_all

lemma collect_Inr_D: "collect rs = Inr vs \<Longrightarrow> rs = map Inr vs"
proof (induction rs arbitrary: vs)
  case Nil
  then show ?case by simp
next
  case (Cons r rs)
  show ?case
  proof (cases r)
    case (Inl e)
    with Cons.prems show ?thesis by simp
  next
    case (Inr v)
    with Cons.prems obtain ws where ws: "collect rs = Inr ws" "vs = v # ws"
      by (cases "collect rs") auto
    from Cons.IH[OF ws(1)] ws(2) Inr show ?thesis by simp
  qed
qed

lemma collect_Inr_iff: "collect rs = Inr vs \<longleftrightarrow> rs = map Inr vs"
  using collect_map_Inr collect_Inr_D by metis

lemma entry_assembled_key: "entry_assembled x = Inr y \<Longrightarrow> fst y = fst x"
  by (cases x rule: entry_assembled.cases) (auto split: sum.splits)

lemma assemble_table_round_trip:
  assumes d: "distinct (map fst t)" and a: "assemble_table t = (Inr out, t')"
  shows "fst (finish_table out t') = collect (map entry_round_trip t)"
proof -
  from a have c: "collect (map entry_assembled t) = Inr out"
    using assemble_table_collect[of t] by simp
  then have m: "map entry_assembled t = map Inr out" by (simp add: collect_Inr_iff)
  from a have t': "t' = map entry_after_assembly t"
    using assemble_table_after[of t out] by simp
  have keys: "map fst out = map fst t"
  proof -
    have "length out = length t" using m by (metis length_map)
    moreover have "fst (out ! i) = fst (t ! i)" if "i < length t" for i
    proof -
      from m that have "entry_assembled (t ! i) = Inr (out ! i)"
        by (metis length_map nth_map)
      then show ?thesis by (rule entry_assembled_key)
    qed
    ultimately show ?thesis by (simp add: list_eq_iff_nth_eq)
  qed
  then have dout: "distinct (map fst out)" using d by simp
  have "entry_finished out (entry_after_assembly x) = entry_round_trip x" if x: "x \<in> set t" for x
  proof (cases x rule: entry_assembled.cases)
    case (1 k v)
    then show ?thesis by simp
  next
    case (2 k mk)
    from x m have "entry_assembled x \<in> set (map Inr out)" by (metis imageI set_map)
    then obtain y where y: "y \<in> set out" "entry_assembled x = Inr y" by auto
    obtain r mk' where o: "obj_assemble mk = (r, mk')" by (cases "obj_assemble mk")
    from y(2) 2 o obtain av where av: "r = Inr av" "y = (k, av)" by (auto split: sum.splits)
    from py_lookup_distinct[OF dout] y(1) av have "py_lookup out k = Inr av" by simp
    then show ?thesis using 2 o av by (simp split: sum.splits)
  qed
  then have "map (entry_finished out) t' = map entry_round_trip t"
    unfolding t' by simp
  then show ?thesis by (simp add: finish_table_collect)
qed

text \<open>
  C7. \<open>DictOf({'json_type': 'foo', 'maker': Lambda(lambda doc: 'bar')})\<close> assembles
  to \<open>{'json_type': None, 'maker': 'bar'}\<close> and finishes that to
  \<open>{'json_type': 'foo', 'maker': 'bar'}\<close>. And for every table: assembly returns, key
  by key, \<open>None\<close> for a literal and for a wrapped maker what its own assembly
  returns (or the first exception), and leaves each wrapped maker as its call left it;
  finishing returns the literal itself for a literal and for a wrapped maker what its own
  finish makes of the value under its key; and finishing what the assembly returned
  gives, for each wrapped maker, what it finishes its own assembled value to.
\<close>

theorem DictOf_literals_and_makers:
  "fst (DictOf_assemble dict_of_example)
     = Inr (VDict [(''json_type'', VNone), (''maker'', VStr ''bar'')]) \<and>
   fst (DictOf_finish (VDict [(''json_type'', VNone), (''maker'', VStr ''bar'')])
          (snd (DictOf_assemble dict_of_example)))
     = Inr (VDict [(''json_type'', VStr ''foo''), (''maker'', VStr ''bar'')]) \<and>
   fst (DictOf_assemble self)
     = (case collect (map entry_assembled (table self)) of
          Inl e \<Rightarrow> Inl e | Inr out \<Rightarrow> Inr (VDict out)) \<and>
   (\<forall>a. fst (DictOf_assemble self) = Inr a \<longrightarrow>
        table (snd (DictOf_assemble self)) = map entry_after_assembly (table self)) \<and>
   fst (DictOf_finish (VDict d) self)
     = (case collect (map (entry_finished d) (table self)) of
          Inl e \<Rightarrow> Inl e | Inr out \<Rightarrow> Inr (VDict out)) \<and>
   (\<forall>a self'. distinct (map fst (table self)) \<longrightarrow> DictOf_assemble self = (Inr a, self') \<longrightarrow>
        fst (DictOf_finish a self')
          = (case collect (map entry_round_trip (table self)) of
               Inl e \<Rightarrow> Inl e | Inr out \<Rightarrow> Inr (VDict out)))"
proof (intro conjI allI impI)
  have a: "DictOf_assemble dict_of_example
      = (Inr (VDict [(''json_type'', VNone), (''maker'', VStr ''bar'')]), dict_of_example)"
    by (simp add: DictOf_assemble_def dict_of_example_def DictOf_init_def obj_assemble_def
        Lambda_cls_def Lambda_assemble_def Lambda_init_def lambda_bar_def)
  show "fst (DictOf_assemble dict_of_example)
     = Inr (VDict [(''json_type'', VNone), (''maker'', VStr ''bar'')])"
    by (simp add: a)
  show "fst (DictOf_finish (VDict [(''json_type'', VNone), (''maker'', VStr ''bar'')])
          (snd (DictOf_assemble dict_of_example)))
     = Inr (VDict [(''json_type'', VStr ''foo''), (''maker'', VStr ''bar'')])"
    unfolding a
    by (simp add: DictOf_finish_def dict_of_example_def DictOf_init_def obj_finish_def
        Lambda_cls_def Lambda_finish_def Lambda_init_def)
  show asm: "fst (DictOf_assemble self)
     = (case collect (map entry_assembled (table self)) of
          Inl e \<Rightarrow> Inl e | Inr out \<Rightarrow> Inr (VDict out))"
    using assemble_table_collect[of "table self"]
    by (cases "assemble_table (table self)") (auto simp: DictOf_assemble_def split: sum.splits)
  show "table (snd (DictOf_assemble self)) = map entry_after_assembly (table self)"
    if "fst (DictOf_assemble self) = Inr a" for a
  proof -
    from that obtain out where "fst (assemble_table (table self)) = Inr out"
      by (cases "assemble_table (table self)") (auto simp: DictOf_assemble_def split: sum.splits)
    from assemble_table_after[OF this] show ?thesis
      by (cases "assemble_table (table self)") (auto simp: DictOf_assemble_def split: sum.splits)
  qed
  show "fst (DictOf_finish (VDict d) self)
     = (case collect (map (entry_finished d) (table self)) of
          Inl e \<Rightarrow> Inl e | Inr out \<Rightarrow> Inr (VDict out))"
    using finish_table_collect[of d "table self"]
    by (cases "finish_table d (table self)") (auto simp: DictOf_finish_def split: sum.splits)
  show "fst (DictOf_finish a self')
          = (case collect (map entry_round_trip (table self)) of
               Inl e \<Rightarrow> Inl e | Inr out \<Rightarrow> Inr (VDict out))"
    if dst: "distinct (map fst (table self))" and a: "DictOf_assemble self = (Inr a, self')"
    for a self'
  proof -
    from a obtain out t' where t: "assemble_table (table self) = (Inr out, t')"
      and e: "a = VDict out" "self' = self\<lparr>table := t'\<rparr>"
      by (cases "assemble_table (table self)") (auto simp: DictOf_assemble_def split: sum.splits)
    from assemble_table_round_trip[OF dst t]
    have "fst (finish_table out t') = collect (map entry_round_trip (table self))" .
    then show ?thesis unfolding e
      by (cases "finish_table out t'") (auto simp: DictOf_finish_def split: sum.splits)
  qed
qed

text \<open>
  A table whose maker acts at both stages, \<open>Lambda(func, finisher=True)\<close> with the
  function of \<open>test_lambda\<close>: the maker assembles \<open>'foo'\<close> and finishes it to
  \<open>'foobar'\<close>, the literal goes from \<open>None\<close> to \<open>'foo'\<close>.
\<close>

theorem DictOf_literals_and_makers_witness:
  "distinct (map fst (table dict_of_finisher)) \<and>
   DictOf_assemble dict_of_finisher
     = (Inr (VDict [(''json_type'', VNone), (''maker'', VStr ''foo'')]), dict_of_finisher) \<and>
   fst (DictOf_finish (VDict [(''json_type'', VNone), (''maker'', VStr ''foo'')]) dict_of_finisher)
     = Inr (VDict [(''json_type'', VStr ''foo''), (''maker'', VStr ''foobar'')])"
proof -
  let ?m = "\<lparr>cls = Lambda_cls, obj = Lambda_init func_foobar True True\<rparr>"
  have tb: "table dict_of_finisher = [(''json_type'', Literal (VStr ''foo'')), (''maker'', Wrapped ?m)]"
    by (simp add: dict_of_finisher_def DictOf_init_def)
  have dst: "distinct (map fst (table dict_of_finisher))" by (simp add: tb)
  have oa: "obj_assemble ?m = (Inr (VStr ''foo''), ?m)"
    by (simp add: obj_assemble_def Lambda_cls_def Lambda_assemble_def Lambda_init_def func_foobar_def)
  have ofin: "obj_finish (VStr ''foo'') ?m = (Inr (VStr ''foobar''), ?m)"
    by (simp add: obj_finish_def Lambda_cls_def Lambda_finish_def Lambda_init_def func_foobar_def)
  note W = DictOf_literals_and_makers[where self = dict_of_finisher]
  have f: "fst (DictOf_assemble dict_of_finisher)
      = Inr (VDict [(''json_type'', VNone), (''maker'', VStr ''foo'')])"
    using W[THEN conjunct2, THEN conjunct2, THEN conjunct1] by (simp add: tb oa)
  have t: "table (snd (DictOf_assemble dict_of_finisher)) = table dict_of_finisher"
    using W[THEN conjunct2, THEN conjunct2, THEN conjunct2, THEN conjunct1, rule_format, OF f]
    by (simp add: tb oa)
  have s: "snd (DictOf_assemble dict_of_finisher) = dict_of_finisher"
    using t by (cases "assemble_table (table dict_of_finisher)")
      (auto simp: DictOf_assemble_def split: sum.splits)
  have a: "DictOf_assemble dict_of_finisher
      = (Inr (VDict [(''json_type'', VNone), (''maker'', VStr ''foo'')]), dict_of_finisher)"
    using f s by (cases "DictOf_assemble dict_of_finisher") simp
  have "fst (DictOf_finish (VDict [(''json_type'', VNone), (''maker'', VStr ''foo'')]) dict_of_finisher)
      = Inr (VDict [(''json_type'', VStr ''foo''), (''maker'', VStr ''foobar'')])"
    using W[THEN conjunct2, THEN conjunct2, THEN conjunct2, THEN conjunct2, THEN conjunct2,
        rule_format, OF dst a]
    by (simp add: tb oa ofin)
  with dst a show ?thesis by simp
qed



subsection \<open>Unique and its exclusion set\<close>







end
